theory Spec2Isabelle
  imports Complex_Main "HOL-Library.Sublist"
begin

section \<open>Values of the host language\<close>

text \<open>
  The services pass plain JavaScript objects around. A field of such an object holds a
  primitive value; an object is a finite map from property names to values. Reading a
  property that the object does not have yields \<open>undefined\<close>. Numbers are modelled
  as exact rationals (no rounding, no NaN, no infinities), which is what the code
  computes on integers up to \<open>2^53\<close>; \<open>whole\<close> tells the integers among them.
\<close>

datatype jsval = Undefined | Null | Bool bool | Num rat | Str string

type_synonym object = "string \<rightharpoonup> jsval"

definition whole :: "rat \<Rightarrow> bool" where
  "whole x = (of_int \<lfloor>x\<rfloor> = x)"

text \<open>The truthiness test behind \<^verbatim>\<open>!x\<close>, \<^verbatim>\<open>if (x)\<close> and \<^verbatim>\<open>x || y\<close>.\<close>

fun truthy :: "jsval \<Rightarrow> bool" where
  "truthy Undefined = False"
| "truthy Null = False"
| "truthy (Bool b) = b"
| "truthy (Num n) = (n \<noteq> 0)"
| "truthy (Str s) = (s \<noteq> [])"

definition field_of :: "object \<Rightarrow> string \<Rightarrow> jsval" where
  "field_of obj k = (case obj k of None \<Rightarrow> Undefined | Some v \<Rightarrow> v)"

subsection \<open>The clock\<close>

text \<open>
  \<^verbatim>\<open>new Date().toISOString()\<close> reads the clock and prints the instant as
  \<^verbatim>\<open>YYYY-MM-DDTHH:mm:ss.sssZ\<close> (a year beyond 9999 is printed with a sign and six
  digits). The reading of the clock is an input of every operation that stamps a time; it
  is given by its UTC components.
\<close>

record date =
  year :: nat
  month :: nat
  day :: nat
  hours :: nat
  minutes :: nat
  seconds :: nat
  millis :: nat

fun digits :: "nat \<Rightarrow> string" where
  "digits n = (if n < 10 then [''0123456789'' ! n]
               else digits (n div 10) @ [''0123456789'' ! (n mod 10)])"

declare digits.simps [simp del]

definition padStart :: "nat \<Rightarrow> string \<Rightarrow> string" where
  "padStart w s = replicate (w - length s) CHR ''0'' @ s"

definition toISOString :: "date \<Rightarrow> string" where
  "toISOString d =
     (if year d \<le> 9999 then padStart 4 (digits (year d))
      else ''+'' @ padStart 6 (digits (year d)))
     @ ''-'' @ padStart 2 (digits (month d))
     @ ''-'' @ padStart 2 (digits (day d))
     @ ''T'' @ padStart 2 (digits (hours d))
     @ '':'' @ padStart 2 (digits (minutes d))
     @ '':'' @ padStart 2 (digits (seconds d))
     @ ''.'' @ padStart 3 (digits (millis d))
     @ ''Z''"

section \<open>Published events\<close>

text \<open>
  A service publishes by calling \<^verbatim>\<open>this.eventBus.emit(topic, payload)\<close>. In the
  models of the services each such call is recorded, in the order the calls are made, as a
  pair of the topic and the payload object. What the bus does with a call is the subject
  of the section on the bus; subscribers are taken not to call back into the publishing
  service while it is still running.
\<close>

type_synonym event = "string \<times> object"

section \<open>OrderService\<close>

text \<open>
  \<^verbatim>\<open>this.orders\<close> is a \<^verbatim>\<open>Map\<close> from order ids to the stored records. The two
  \<^verbatim>\<open>throw new Error(...)\<close> sites of \<^verbatim>\<open>createOrder\<close> are told apart by their
  messages: \<open>ValidationError\<close> stands for "Missing required order fields: orderId, email,
  item" and \<open>DuplicateOrderError\<close> for "Order ... already exists" (it carries the id).
\<close>

datatype order_error = ValidationError | DuplicateOrderError jsval

record order_service =
  orders :: "jsval \<rightharpoonup> object"

definition OrderService :: order_service where
  "OrderService = \<lparr>orders = Map.empty\<rparr>"

text \<open>
  A field counts as missing exactly when the guard of \<^verbatim>\<open>createOrder\<close> rejects it:
  \<^verbatim>\<open>!orderData.orderId || !orderData.email || !orderData.item\<close>.
\<close>

definition missing :: "object \<Rightarrow> string \<Rightarrow> bool" where
  "missing orderData k = (\<not> truthy (field_of orderData k))"

definition enrich :: "date \<Rightarrow> object \<Rightarrow> object" where
  "enrich now orderData =
     orderData(''timestamp'' \<mapsto> Str (toISOString now), ''status'' \<mapsto> Str ''created'')"

text \<open>
  The result says how the call ended (the error thrown, or the record returned), which
  events it published, and the service afterwards.
\<close>

definition createOrder ::
  "date \<Rightarrow> object \<Rightarrow> order_service \<Rightarrow> (order_error + object) \<times> event list \<times> order_service" where
  "createOrder now orderData s =
     (if missing orderData ''orderId'' \<or> missing orderData ''email'' \<or> missing orderData ''item''
      then (Inl ValidationError, [], s)
      else if orders s (field_of orderData ''orderId'') \<noteq> None
      then (Inl (DuplicateOrderError (field_of orderData ''orderId'')), [], s)
      else
        let enrichedOrder = enrich now orderData;
            s' = s\<lparr>orders := (orders s)(field_of orderData ''orderId'' \<mapsto> enrichedOrder)\<rparr>
        in (Inr enrichedOrder, [(''order:created'', enrichedOrder)], s'))"

section \<open>InventoryService\<close>

text \<open>
  \<^verbatim>\<open>this.inventory\<close> maps an item name to its entry \<^verbatim>\<open>{stock, price, category}\<close>,
  \<^verbatim>\<open>this.reservations\<close> maps an order id to its reservation. Stock counts,
  quantities and the threshold are numbers; nothing in the code makes them integers.
  A reservation gets its \<^verbatim>\<open>fulfilledAt\<close> property only when it is fulfilled.
\<close>

record stock_item =
  stock :: rat
  price :: rat
  category :: string

record reservation =
  item :: jsval
  quantity :: rat
  price_r :: rat
  reservedAt :: string
  status :: string
  fulfilledAt :: "string option"

record inventory_service =
  inventory :: "jsval \<rightharpoonup> stock_item"
  reservations :: "jsval \<rightharpoonup> reservation"
  lowStockThreshold :: rat

text \<open>The constructor: five seeded items, no reservation, threshold 5.\<close>

definition InventoryService :: inventory_service where
  "InventoryService =
     \<lparr>inventory =
        [Str ''MacBook Pro'' \<mapsto> \<lparr>stock = 10, price = 239999 / 100, category = ''laptops''\<rparr>,
         Str ''iPhone 15'' \<mapsto> \<lparr>stock = 25, price = 99999 / 100, category = ''phones''\<rparr>,
         Str ''iPad Air'' \<mapsto> \<lparr>stock = 15, price = 59999 / 100, category = ''tablets''\<rparr>,
         Str ''AirPods Pro'' \<mapsto> \<lparr>stock = 50, price = 24999 / 100, category = ''accessories''\<rparr>,
         Str ''Apple Watch'' \<mapsto> \<lparr>stock = 30, price = 39999 / 100, category = ''wearables''\<rparr>],
      reservations = Map.empty,
      lowStockThreshold = 5\<rparr>"

definition low_stock_payload :: "jsval \<Rightarrow> rat \<Rightarrow> rat \<Rightarrow> object" where
  "low_stock_payload name currentStock threshold =
     [''item'' \<mapsto> name,
      ''currentStock'' \<mapsto> Num currentStock,
      ''threshold'' \<mapsto> Num threshold]"

definition checkAndReserveItem ::
  "date \<Rightarrow> object \<Rightarrow> inventory_service \<Rightarrow> event list \<times> inventory_service" where
  "checkAndReserveItem now orderData s =
     (case inventory s (field_of orderData ''item'') of
        None \<Rightarrow> ([(''order:inventory_unavailable'', orderData)], s)
      | Some it \<Rightarrow>
          if stock it \<le> 0 then ([(''order:out_of_stock'', orderData)], s)
          else
            let it' = it\<lparr>stock := stock it - 1\<rparr>;
                s' = s\<lparr>inventory := (inventory s)(field_of orderData ''item'' \<mapsto> it'),
                       reservations := (reservations s)(field_of orderData ''orderId'' \<mapsto>
                         \<lparr>item = field_of orderData ''item'',
                          quantity = 1,
                          price_r = price it',
                          reservedAt = toISOString now,
                          status = ''reserved'',
                          fulfilledAt = None\<rparr>)\<rparr>
            in ((if stock it' \<le> lowStockThreshold s'
                 then [(''inventory:low_stock'',
                        low_stock_payload (field_of orderData ''item'') (stock it')
                          (lowStockThreshold s'))]
                 else [])
                @ [(''order:inventory_reserved'', orderData)], s'))"

definition handleDelivery ::
  "date \<Rightarrow> object \<Rightarrow> inventory_service \<Rightarrow> event list \<times> inventory_service" where
  "handleDelivery now shipmentData s =
     (case reservations s (field_of shipmentData ''orderId'') of
        None \<Rightarrow> ([], s)
      | Some r \<Rightarrow>
          ([], s\<lparr>reservations := (reservations s)(field_of shipmentData ''orderId'' \<mapsto>
                 r\<lparr>status := ''fulfilled'', fulfilledAt := Some (toISOString now)\<rparr>)\<rparr>))"

definition stock_added_payload :: "jsval \<Rightarrow> rat \<Rightarrow> rat \<Rightarrow> object" where
  "stock_added_payload name added new_total =
     [''item'' \<mapsto> name, ''added'' \<mapsto> Num added, ''total'' \<mapsto> Num new_total]"

definition addStock :: "jsval \<Rightarrow> rat \<Rightarrow> inventory_service \<Rightarrow> event list \<times> inventory_service" where
  "addStock itemName qty s =
     (case inventory s itemName of
        None \<Rightarrow> ([], s)
      | Some it \<Rightarrow>
          let it' = it\<lparr>stock := stock it + qty\<rparr>
          in ([(''inventory:stock_added'', stock_added_payload itemName qty (stock it'))],
              s\<lparr>inventory := (inventory s)(itemName \<mapsto> it')\<rparr>))"

text \<open>
  The \<^verbatim>\<open>itemData\<close> argument of \<^verbatim>\<open>addProduct\<close>: each of the three properties may
  be absent. \<^verbatim>\<open>x || d\<close> takes the default also when \<open>x\<close> is \<open>0\<close> or the empty string.
\<close>

record item_data =
  stock_in :: "rat option"
  price_in :: "rat option"
  category_in :: "string option"

definition object_of_item_data :: "item_data \<Rightarrow> object" where
  "object_of_item_data d =
     (\<lambda>k. if k = ''stock'' then map_option Num (stock_in d)
          else if k = ''price'' then map_option Num (price_in d)
          else if k = ''category'' then map_option Str (category_in d)
          else None)"

definition addProduct ::
  "jsval \<Rightarrow> item_data \<Rightarrow> inventory_service \<Rightarrow> event list \<times> inventory_service" where
  "addProduct itemName itemData s =
     ([(''inventory:product_added'', [''item'' \<mapsto> itemName] ++ object_of_item_data itemData)],
      s\<lparr>inventory := (inventory s)(itemName \<mapsto>
          \<lparr>stock = (case stock_in itemData of Some n \<Rightarrow> if n \<noteq> 0 then n else 0 | None \<Rightarrow> 0),
           price = (case price_in itemData of Some x \<Rightarrow> if x \<noteq> 0 then x else 0 | None \<Rightarrow> 0),
           category = (case category_in itemData of
                         Some c \<Rightarrow> if c \<noteq> [] then c else ''general''
                       | None \<Rightarrow> ''general'')\<rparr>)\<rparr>)"

text \<open>
  The ledger's operations as calls, and a run of calls from a state. Each call carries the
  clock reading it would see.
\<close>

datatype inventory_call =
    CheckAndReserveItem date object
  | HandleDelivery date object
  | AddStock jsval rat
  | AddProduct jsval item_data

fun call :: "inventory_call \<Rightarrow> inventory_service \<Rightarrow> event list \<times> inventory_service" where
  "call (CheckAndReserveItem now orderData) s = checkAndReserveItem now orderData s"
| "call (HandleDelivery now shipmentData) s = handleDelivery now shipmentData s"
| "call (AddStock itemName qty) s = addStock itemName qty s"
| "call (AddProduct itemName itemData) s = addProduct itemName itemData s"

fun run :: "inventory_call list \<Rightarrow> inventory_service \<Rightarrow> inventory_service" where
  "run [] s = s"
| "run (c # cs) s = run cs (snd (call c s))"

text \<open>The calls whose argument adds a whole, non-negative amount of stock.\<close>

fun adds_whole_stock :: "inventory_call \<Rightarrow> bool" where
  "adds_whole_stock (AddStock itemName qty) = (whole qty \<and> 0 \<le> qty)"
| "adds_whole_stock (AddProduct itemName itemData) =
     (case stock_in itemData of None \<Rightarrow> True | Some n \<Rightarrow> whole n \<and> 0 \<le> n)"
| "adds_whole_stock c = True"

definition stock_of :: "inventory_service \<Rightarrow> jsval \<Rightarrow> rat option" where
  "stock_of s name = map_option stock (inventory s name)"

definition stocks_whole_non_negative :: "inventory_service \<Rightarrow> bool" where
  "stocks_whole_non_negative s = (\<forall>name n. stock_of s name = Some n \<longrightarrow> whole n \<and> 0 \<le> n)"

section \<open>EventBus\<close>

text \<open>
  \<^verbatim>\<open>this.events\<close> is a plain object whose own properties are arrays of listeners.
  Arrays are objects with identity: \<^verbatim>\<open>on\<close> pushes onto the array in place, \<^verbatim>\<open>off\<close>
  stores a new, filtered array, and \<^verbatim>\<open>emit\<close> iterates over whichever array the
  property held when \<^verbatim>\<open>forEach\<close> was called. So the bus is a store of arrays by
  address, and \<open>events\<close> maps a topic to the address of its array. \<open>fresh\<close> is the next
  unused address. A listener is known by its identity, a number. \<open>errlog\<close> lists the
  \<^verbatim>\<open>console.error\<close> lines written so far, each with the topic and the exception
  that was caught.
\<close>

datatype exn = Thrown | TypeError | RangeError

record bus =
  events :: "string \<rightharpoonup> nat"
  heap :: "nat \<Rightarrow> nat list"
  fresh :: nat
  errlog :: "(string \<times> exn) list"

definition EventBus :: bus where
  "EventBus = \<lparr>events = Map.empty, heap = (\<lambda>a. []), fresh = 0, errlog = []\<rparr>"

text \<open>
  A property read \<^verbatim>\<open>this.events[eventName]\<close> finds the own property if there is one.
  Otherwise it falls through to \<^verbatim>\<open>Object.prototype\<close>, whose members are functions
  (and, for \<^verbatim>\<open>__proto__\<close>, the prototype object itself): truthy values that have
  none of \<^verbatim>\<open>push\<close>, \<^verbatim>\<open>filter\<close>, \<^verbatim>\<open>forEach\<close>, so that calling one of these on them
  is a TypeError.
\<close>

definition object_prototype_keys :: "string list" where
  "object_prototype_keys =
     [''constructor'', ''hasOwnProperty'', ''isPrototypeOf'', ''propertyIsEnumerable'',
      ''toLocaleString'', ''toString'', ''valueOf'', ''__proto__'',
      ''__defineGetter__'', ''__defineSetter__'', ''__lookupGetter__'', ''__lookupSetter__'']"

datatype slot = Absent | Inherited | Array nat

definition lookup :: "bus \<Rightarrow> string \<Rightarrow> slot" where
  "lookup s eventName =
     (case events s eventName of
        Some a \<Rightarrow> Array a
      | None \<Rightarrow> if eventName \<in> set object_prototype_keys then Inherited else Absent)"

definition on :: "string \<Rightarrow> nat \<Rightarrow> bus \<Rightarrow> exn + bus" where
  "on eventName listener s =
     (let s1 = (case lookup s eventName of
                  Absent \<Rightarrow> s\<lparr>events := (events s)(eventName \<mapsto> fresh s),
                              heap := (heap s)(fresh s := []),
                              fresh := Suc (fresh s)\<rparr>
                | Inherited \<Rightarrow> s
                | Array a \<Rightarrow> s)
      in case lookup s1 eventName of
           Array a \<Rightarrow> Inr (s1\<lparr>heap := (heap s1)(a := heap s1 a @ [listener])\<rparr>)
         | Inherited \<Rightarrow> Inl TypeError
         | Absent \<Rightarrow> Inl TypeError)"

definition off :: "string \<Rightarrow> nat \<Rightarrow> bus \<Rightarrow> exn + bus" where
  "off eventName listener s =
     (case lookup s eventName of
        Absent \<Rightarrow> Inr s
      | Inherited \<Rightarrow> Inl TypeError
      | Array a \<Rightarrow>
          (let s1 = s\<lparr>events := (events s)(eventName \<mapsto> fresh s),
                      heap := (heap s)(fresh s := filter (\<lambda>l. l \<noteq> listener) (heap s a)),
                      fresh := Suc (fresh s)\<rparr>
           in (case lookup s1 eventName of
                 Array b \<Rightarrow>
                   Inr (if length (heap s1 b) = 0
                        then s1\<lparr>events := (events s1)(eventName := None)\<rparr>
                        else s1)
               | Inherited \<Rightarrow> Inl TypeError
               | Absent \<Rightarrow> Inl TypeError)))"

definition getEvents :: "bus \<Rightarrow> string set" where
  "getEvents s = dom (events s)"

text \<open>The listeners of a topic, in the order of its array (none without an own array).\<close>

definition listeners :: "bus \<Rightarrow> string \<Rightarrow> nat list" where
  "listeners s eventName = (case events s eventName of None \<Rightarrow> [] | Some a \<Rightarrow> heap s a)"

text \<open>
  What a listener does when it is called matters to the bus only so far as it uses the
  bus or throws. A listener's body is therefore a sequence of statements: subscribe,
  unsubscribe, publish, throw. The bodies of all listeners are given as a table from the
  listener and the payload it is called with.
\<close>

datatype 'p stmt = On string nat | Off string nat | Emit string 'p | Throw

type_synonym 'p bodies = "nat \<Rightarrow> 'p \<Rightarrow> 'p stmt list"

text \<open>
  A call of \<^verbatim>\<open>emit\<close> throws or returns. With the bus afterwards the model returns
  the calls \<^verbatim>\<open>listener(payload)\<close> that this very \<^verbatim>\<open>forEach\<close> made, in order; calls
  made by publishes nested inside a listener are not among them.
\<close>

type_synonym 'p publish =
  "string \<Rightarrow> 'p \<Rightarrow> bus \<Rightarrow> exn + ((nat \<times> 'p) list \<times> bus)"

datatype outcome = Returned | Raised exn

text \<open>
  Running a body. An exception ends it: the listener's own \<^verbatim>\<open>throw\<close>, or an exception
  out of a bus method, which has changed nothing by then. \<open>pub\<close> is the \<^verbatim>\<open>emit\<close> that
  a nested publish reaches.
\<close>

fun run_body :: "'p publish \<Rightarrow> 'p stmt list \<Rightarrow> bus \<Rightarrow> outcome \<times> bus" where
  "run_body pub [] s = (Returned, s)"
| "run_body pub (Throw # cs) s = (Raised Thrown, s)"
| "run_body pub (On t l # cs) s =
     (case on t l s of Inl e \<Rightarrow> (Raised e, s) | Inr s' \<Rightarrow> run_body pub cs s')"
| "run_body pub (Off t l # cs) s =
     (case off t l s of Inl e \<Rightarrow> (Raised e, s) | Inr s' \<Rightarrow> run_body pub cs s')"
| "run_body pub (Emit t p # cs) s =
     (case pub t p s of
        Inl e \<Rightarrow> (Raised e, s)
      | Inr (ds, s') \<Rightarrow> run_body pub cs s')"

text \<open>
  \<^verbatim>\<open>Array.prototype.forEach\<close> on the array at address \<open>a\<close>: the length is read once,
  before the first call (\<open>n\<close> is the number of indices still to visit, \<open>k\<close> the next one);
  each index is looked up in the array as it is when its turn comes. The callback calls
  the listener inside \<^verbatim>\<open>try\<close>; the \<^verbatim>\<open>catch\<close> writes the \<^verbatim>\<open>console.error\<close> line.
\<close>

definition caught :: "string \<Rightarrow> outcome \<Rightarrow> bus \<Rightarrow> bus" where
  "caught eventName out s =
     (case out of Raised e \<Rightarrow> s\<lparr>errlog := errlog s @ [(eventName, e)]\<rparr> | Returned \<Rightarrow> s)"

fun forEach ::
  "'p publish \<Rightarrow> 'p bodies \<Rightarrow> string \<Rightarrow> 'p \<Rightarrow> nat \<Rightarrow> nat \<Rightarrow> nat \<Rightarrow> bus \<Rightarrow> (nat \<times> 'p) list \<times> bus" where
  "forEach pub L eventName payload a k 0 s = ([], s)"
| "forEach pub L eventName payload a k (Suc n) s =
     (if k < length (heap s a)
      then
        (case run_body pub (L (heap s a ! k) payload) s of
           (out, s1) \<Rightarrow>
             (case forEach pub L eventName payload a (Suc k) n (caught eventName out s1) of
                (ds, s2) \<Rightarrow> ((heap s a ! k, payload) # ds, s2)))
      else forEach pub L eventName payload a (Suc k) n s)"

definition emit_with :: "'p publish \<Rightarrow> 'p bodies \<Rightarrow> 'p publish" where
  "emit_with pub L eventName payload s =
     (case lookup s eventName of
        Absent \<Rightarrow> Inr ([], s)
      | Inherited \<Rightarrow> Inl TypeError
      | Array a \<Rightarrow> Inr (forEach pub L eventName payload a 0 (length (heap s a)) s))"

text \<open>
  Listeners may publish, and the listeners these publishes call may publish again. The
  call stack of the engine is finite: a call that does not fit on it is a RangeError at
  the place of the call, an exception like any other. \<open>emit (Suc depth)\<close> is a call of
  \<^verbatim>\<open>emit\<close> for which the stack has room, with room for \<open>depth\<close> more calls of
  \<^verbatim>\<open>emit\<close> nested inside it; \<open>emit 0\<close> is a call for which there is no room left.
  A nested call without room raises inside the listener that makes it, where the
  \<^verbatim>\<open>try\<close> of the enclosing \<^verbatim>\<open>forEach\<close> catches it. So every call of \<^verbatim>\<open>emit\<close>
  ends, also when listeners publish to each other in a cycle.
\<close>

primrec emit :: "nat \<Rightarrow> 'p bodies \<Rightarrow> 'p publish" where
  "emit 0 L = (\<lambda>eventName payload s. Inl RangeError)"
| "emit (Suc depth) L = emit_with (emit depth L) L"

text \<open>The calls that a publish made itself.\<close>

definition delivered :: "(exn + ((nat \<times> 'p) list \<times> bus)) \<Rightarrow> (nat \<times> 'p) list" where
  "delivered r = (case r of Inl e \<Rightarrow> [] | Inr (ds, s') \<Rightarrow> ds)"

text \<open>
  A bus is well formed when every array that \<open>events\<close> refers to has been allocated
  and no two topics share an array. A later bus extends an earlier one when no allocated
  array has lost or changed an element and no line of the error log was taken back.
\<close>

definition well_formed :: "bus \<Rightarrow> bool" where
  "well_formed s =
     ((\<forall>t a. events s t = Some a \<longrightarrow> a < fresh s)
      \<and> (\<forall>t u a. events s t = Some a \<and> events s u = Some a \<longrightarrow> t = u))"

definition extends :: "bus \<Rightarrow> bus \<Rightarrow> bool" where
  "extends s s' =
     (fresh s \<le> fresh s' \<and> (\<forall>a. a < fresh s \<longrightarrow> prefix (heap s a) (heap s' a))
      \<and> prefix (errlog s) (errlog s'))"

text \<open>
  An \<^verbatim>\<open>emit\<close> is sound when it hands back a well-formed bus that extends the one it
  was called on.
\<close>

definition sound :: "'p publish \<Rightarrow> bool" where
  "sound pub =
     (\<forall>t p s ds s'. well_formed s \<and> pub t p s = Inr (ds, s')
        \<longrightarrow> well_formed s' \<and> extends s s')"

text \<open>
  The number of stack overflows that the log records, and the calls of \<^verbatim>\<open>emit\<close>
  that ended without any: they did not raise a RangeError themselves and none was caught
  while they ran.
\<close>

definition overflows :: "bus \<Rightarrow> nat" where
  "overflows s = length (filter (\<lambda>line. snd line = RangeError) (errlog s))"

definition within_stack :: "bus \<Rightarrow> exn + ((nat \<times> 'p) list \<times> bus) \<Rightarrow> bool" where
  "within_stack s r =
     (case r of Inl e \<Rightarrow> e \<noteq> RangeError | Inr (ds, s') \<Rightarrow> overflows s' = overflows s)"

text \<open>
  Topics are layered by a ranking \<open>rk\<close> when listeners publish downwards only. A
  listener fits a topic when every publish in its body is on a topic ranked below that
  topic; a table is layered when every subscription made inside a body subscribes a
  listener to a topic it fits; a bus is layered when every listener fits the topic it
  is subscribed to.
\<close>

fun publishes_below :: "(string \<Rightarrow> nat) \<Rightarrow> nat \<Rightarrow> 'p stmt \<Rightarrow> bool" where
  "publishes_below rk r (Emit t p) = (rk t < r)"
| "publishes_below rk r c = True"

definition fits :: "(string \<Rightarrow> nat) \<Rightarrow> 'p bodies \<Rightarrow> nat \<Rightarrow> string \<Rightarrow> bool" where
  "fits rk L l t = (\<forall>p. \<forall>c \<in> set (L l p). publishes_below rk (rk t) c)"

fun subscribes_fitting :: "(string \<Rightarrow> nat) \<Rightarrow> 'p bodies \<Rightarrow> 'p stmt \<Rightarrow> bool" where
  "subscribes_fitting rk L (On t l) = fits rk L l t"
| "subscribes_fitting rk L c = True"

definition layered :: "(string \<Rightarrow> nat) \<Rightarrow> 'p bodies \<Rightarrow> bool" where
  "layered rk L = (\<forall>l p. \<forall>c \<in> set (L l p). subscribes_fitting rk L c)"

definition bus_layered :: "(string \<Rightarrow> nat) \<Rightarrow> 'p bodies \<Rightarrow> bus \<Rightarrow> bool" where
  "bus_layered rk L s = (\<forall>t. \<forall>l \<in> set (listeners s t). fits rk L l t)"

section \<open>Example inputs\<close>

text \<open>Two readings of the clock, five seconds apart.\<close>

definition at_first :: date where
  "at_first = \<lparr>year = 2024, month = 3, day = 15, hours = 10, minutes = 30, seconds = 0, millis = 0\<rparr>"

definition at_second :: date where
  "at_second = \<lparr>year = 2024, month = 3, day = 15, hours = 10, minutes = 30, seconds = 5, millis = 0\<rparr>"

text \<open>An order for a seeded item, one for an unknown item, and one without email and item.\<close>

definition test_order :: object where
  "test_order = [''orderId'' \<mapsto> Str ''TEST123'', ''email'' \<mapsto> Str ''test@example.com'',
                 ''item'' \<mapsto> Str ''MacBook Pro'']"

definition unknown_item_order :: object where
  "unknown_item_order = [''orderId'' \<mapsto> Str ''UNAVAIL123'', ''item'' \<mapsto> Str ''Nonexistent Product'']"

definition bare_order :: object where
  "bare_order = [''orderId'' \<mapsto> Str ''TEST123'']"

text \<open>A product that is added with half a unit of stock, and an order for it.\<close>

definition half_a_unit :: item_data where
  "half_a_unit = \<lparr>stock_in = Some (1 / 2), price_in = None, category_in = None\<rparr>"

definition half_order :: object where
  "half_order = [''orderId'' \<mapsto> Str ''HALF1'', ''item'' \<mapsto> Str ''Half'']"

text \<open>
  A bus on which listeners 1 and 2 are subscribed to \<open>''t''\<close>, in this order, and one on
  which listener 7 is subscribed to \<open>''t''\<close> twice.
\<close>

definition two_listeners :: bus where
  "two_listeners = \<lparr>events = [''t'' \<mapsto> 0], heap = (\<lambda>a. [])(0 := [1, 2]), fresh = 1, errlog = []\<rparr>"

definition subscribed_twice :: bus where
  "subscribed_twice = \<lparr>events = [''t'' \<mapsto> 0], heap = (\<lambda>a. [])(0 := [7, 7]), fresh = 1, errlog = []\<rparr>"

text \<open>Listener 1 throws; the other listeners do nothing.\<close>

definition first_throws :: "nat bodies" where
  "first_throws l p = (if l = 1 then [Throw] else [])"

text \<open>
  Listener 1 subscribes listener 3 to \<open>''t''\<close> and unsubscribes listener 2 from it; the
  other listeners do nothing.
\<close>

definition first_rewires :: "nat bodies" where
  "first_rewires l p = (if l = 1 then [On ''t'' 3, Off ''t'' 2] else [])"

text \<open>
  The shape of the order saga: listeners 1 and 3 are subscribed to \<open>order:created\<close>,
  listener 2 to \<open>order:inventory_reserved\<close>. Listener 1 publishes
  \<open>order:inventory_reserved\<close> with the payload it was called with, listener 2 throws,
  listener 3 does nothing. \<open>order:created\<close> is ranked above the other topics.
\<close>

definition saga_bus :: bus where
  "saga_bus =
     \<lparr>events = [''order:created'' \<mapsto> 0, ''order:inventory_reserved'' \<mapsto> 1],
      heap = (\<lambda>a. [])(0 := [1, 3], 1 := [2]), fresh = 2, errlog = []\<rparr>"

definition saga :: "nat bodies" where
  "saga l p = (if l = 1 then [Emit ''order:inventory_reserved'' p]
               else if l = 2 then [Throw] else [])"

definition saga_rank :: "string \<Rightarrow> nat" where
  "saga_rank t = (if t = ''order:created'' then 1 else 0)"

section \<open>Basic facts\<close>

lemma toISOString_nonempty: "toISOString d \<noteq> []"
  by (simp add: toISOString_def)

subsection \<open>The bus keeps what it has allocated\<close>

text \<open>
  A new bus is well formed, and \<^verbatim>\<open>on\<close>, \<^verbatim>\<open>off\<close> and \<^verbatim>\<open>emit\<close> hand back a
  well-formed bus when they are called on one; so every bus that a program can reach is
  well formed. None of them shortens or overwrites an array that exists: \<^verbatim>\<open>on\<close>
  appends, \<^verbatim>\<open>off\<close> allocates. This is why the array that a \<^verbatim>\<open>forEach\<close> walks
  through still starts with the elements it had at the start, whatever the listeners do.
\<close>

lemma EventBus_well_formed: "well_formed EventBus"
  by (simp add: well_formed_def EventBus_def)

lemma extends_refl: "extends s s"
  by (simp add: extends_def)

lemma extends_trans: "extends s s1 \<Longrightarrow> extends s1 s2 \<Longrightarrow> extends s s2"
  unfolding extends_def
  by (meson dual_order.trans order_less_le_trans prefix_order.order_trans)

lemma extends_errlog: "extends s (s\<lparr>errlog := errlog s @ es\<rparr>)"
  by (simp add: extends_def)

lemma well_formed_errlog: "well_formed (s\<lparr>errlog := es\<rparr>) = well_formed s"
  by (simp add: well_formed_def)

lemma lookup_Array: "lookup s t = Array a \<longleftrightarrow> events s t = Some a"
  by (simp add: lookup_def split: option.splits)

lemma caught_well_formed: "well_formed (caught t out s) = well_formed s"
  by (cases out) (simp_all add: caught_def well_formed_errlog)

lemma caught_extends: "extends s (caught t out s)"
  by (cases out) (simp_all add: caught_def extends_errlog extends_refl)

lemma on_Inr:
  assumes "well_formed s" "on t l s = Inr s'"
  shows "well_formed s' \<and> extends s s'"
proof (cases "lookup s t")
  case Absent
  then have ev: "events s t = None"
    by (simp add: lookup_def split: option.splits if_splits)
  with Absent assms(2) have s': "s' = s\<lparr>events := (events s)(t \<mapsto> fresh s),
      heap := (heap s)(fresh s := [l]), fresh := Suc (fresh s)\<rparr>"
    by (auto simp add: on_def lookup_def)
  from assms(1) ev show ?thesis
    unfolding s' well_formed_def extends_def by (auto simp add: less_Suc_eq split: if_splits)
next
  case Inherited
  with assms(2) show ?thesis by (simp add: on_def)
next
  case (Array a)
  then have ev: "events s t = Some a"
    by (simp add: lookup_Array)
  with Array assms(2) have s': "s' = s\<lparr>heap := (heap s)(a := heap s a @ [l])\<rparr>"
    by (simp add: on_def)
  from assms(1) show ?thesis
    unfolding s' well_formed_def extends_def by auto
qed

lemma off_Inr:
  assumes "well_formed s" "off t l s = Inr s'"
  shows "well_formed s' \<and> extends s s'"
proof (cases "lookup s t")
  case Absent
  with assms show ?thesis by (simp add: off_def extends_refl)
next
  case Inherited
  with assms(2) show ?thesis by (simp add: off_def)
next
  case (Array a)
  let ?s1 = "s\<lparr>events := (events s)(t \<mapsto> fresh s),
      heap := (heap s)(fresh s := filter (\<lambda>x. x \<noteq> l) (heap s a)), fresh := Suc (fresh s)\<rparr>"
  from Array assms(2) have "s' = ?s1 \<or> s' = ?s1\<lparr>events := (events ?s1)(t := None)\<rparr>"
    by (simp add: off_def lookup_def Let_def split: if_splits)
  with assms(1) show ?thesis
    unfolding well_formed_def extends_def by (fastforce simp add: less_Suc_eq split: if_splits)
qed

lemma on_raises: "on t l s = Inl e \<Longrightarrow> e = TypeError"
  by (auto simp add: on_def Let_def split: slot.splits)

lemma off_raises: "off t l s = Inl e \<Longrightarrow> e = TypeError"
  by (auto simp add: off_def Let_def split: slot.splits)

lemma on_errlog: "on t l s = Inr s' \<Longrightarrow> errlog s' = errlog s"
  by (auto simp add: on_def Let_def split: slot.splits)

lemma off_errlog: "off t l s = Inr s' \<Longrightarrow> errlog s' = errlog s"
  by (auto simp add: off_def Let_def split: slot.splits if_splits)

lemma soundD:
  "sound pub \<Longrightarrow> well_formed s \<Longrightarrow> pub t p s = Inr (ds, s') \<Longrightarrow> well_formed s' \<and> extends s s'"
  unfolding sound_def by blast

lemma run_body_sound:
  "sound pub \<Longrightarrow> well_formed s \<Longrightarrow> run_body pub cs s = (out, s')
     \<Longrightarrow> well_formed s' \<and> extends s s'"
proof (induction pub cs s rule: run_body.induct)
  case (1 pub s)
  then show ?case by (simp add: extends_refl)
next
  case (2 pub cs s)
  then show ?case by (simp add: extends_refl)
next
  case (3 pub t l cs s)
  show ?case
  proof (cases "on t l s")
    case (Inl e)
    with "3.prems" show ?thesis by (simp add: extends_refl)
  next
    case (Inr s1)
    from on_Inr [OF "3.prems"(2) Inr] have w: "well_formed s1" and e: "extends s s1"
      by simp_all
    from Inr "3.prems" have "run_body pub cs s1 = (out, s')" by simp
    from "3.IH" [OF Inr "3.prems"(1) w this] e show ?thesis
      using extends_trans by blast
  qed
next
  case (4 pub t l cs s)
  show ?case
  proof (cases "off t l s")
    case (Inl e)
    with "4.prems" show ?thesis by (simp add: extends_refl)
  next
    case (Inr s1)
    from off_Inr [OF "4.prems"(2) Inr] have w: "well_formed s1" and e: "extends s s1"
      by simp_all
    from Inr "4.prems" have "run_body pub cs s1 = (out, s')" by simp
    from "4.IH" [OF Inr "4.prems"(1) w this] e show ?thesis
      using extends_trans by blast
  qed
next
  case (5 pub t p cs s)
  show ?case
  proof (cases "pub t p s")
    case (Inl e)
    with "5.prems" show ?thesis by (simp add: extends_refl)
  next
    case (Inr x)
    obtain ds s1 where x: "x = (ds, s1)" by (cases x)
    from Inr x have p: "pub t p s = Inr (ds, s1)" by simp
    from soundD [OF "5.prems"(1,2) p] have w: "well_formed s1" and e: "extends s s1"
      by simp_all
    from p "5.prems" have "run_body pub cs s1 = (out, s')" by simp
    from "5.IH" [OF p refl "5.prems"(1) w this] e show ?thesis
      using extends_trans by blast
  qed
qed

lemma forEach_step:
  assumes "k < length (heap s a)" "forEach pub L t p a k (Suc n) s = (ds, s')"
  shows "\<exists>out s1 ds'. run_body pub (L (heap s a ! k) p) s = (out, s1)
           \<and> forEach pub L t p a (Suc k) n (caught t out s1) = (ds', s')
           \<and> ds = (heap s a ! k, p) # ds'"
  using assms by (auto split: prod.splits)

text \<open>
  One step of the walk, with all that is known after it: the listener called is the one
  the array held at the start, and the bus after the call (and after the \<^verbatim>\<open>catch\<close>)
  is well formed and extends the bus before.
\<close>

lemma forEach_unfold:
  assumes sp: "sound pub" and w: "well_formed s" and a: "a < fresh s"
    and pre: "prefix hs (heap s a)" and k: "k < length hs"
    and fe: "forEach pub L t p a k (Suc n) s = (ds, s')"
  shows "\<exists>out s1 ds'. run_body pub (L (hs ! k) p) s = (out, s1)
           \<and> forEach pub L t p a (Suc k) n (caught t out s1) = (ds', s')
           \<and> ds = (hs ! k, p) # ds'
           \<and> well_formed s1 \<and> extends s s1
           \<and> well_formed (caught t out s1) \<and> extends s (caught t out s1)
           \<and> a < fresh (caught t out s1) \<and> prefix hs (heap (caught t out s1) a)"
proof -
  from pre k have kh: "k < length (heap s a)"
    using prefix_length_le by fastforce
  from pre k have nth: "heap s a ! k = hs ! k"
    by (auto simp add: prefix_def nth_append)
  from forEach_step [OF kh fe] nth obtain out s1 ds' where
    rb: "run_body pub (L (hs ! k) p) s = (out, s1)" and
    fe': "forEach pub L t p a (Suc k) n (caught t out s1) = (ds', s')" and
    ds: "ds = (hs ! k, p) # ds'"
    by auto
  from run_body_sound [OF sp w rb] have w1: "well_formed s1" and e1: "extends s s1"
    by simp_all
  from w1 have w2: "well_formed (caught t out s1)" by (simp add: caught_well_formed)
  from e1 caught_extends [of s1 t out] have e2: "extends s (caught t out s1)"
    using extends_trans by blast
  with a pre have a2: "a < fresh (caught t out s1)" and p2: "prefix hs (heap (caught t out s1) a)"
    unfolding extends_def by (auto intro: prefix_order.trans)
  from rb fe' ds w1 e1 w2 e2 a2 p2 show ?thesis by blast
qed

lemma forEach_snapshot:
  assumes "sound pub"
  shows "well_formed s \<Longrightarrow> a < fresh s \<Longrightarrow> prefix hs (heap s a) \<Longrightarrow> k + n = length hs
    \<Longrightarrow> forEach pub L t p a k n s = (ds, s')
    \<Longrightarrow> ds = map (\<lambda>l. (l, p)) (drop k hs) \<and> well_formed s' \<and> extends s s'"
proof (induction n arbitrary: k s ds)
  case 0
  then show ?case by (simp add: extends_refl)
next
  case (Suc n)
  from Suc.prems have k: "k < length hs" by simp
  from forEach_unfold [OF assms Suc.prems(1,2,3) k Suc.prems(5)] obtain out s1 ds' where
    fe: "forEach pub L t p a (Suc k) n (caught t out s1) = (ds', s')" and
    ds: "ds = (hs ! k, p) # ds'" and
    w2: "well_formed (caught t out s1)" and e2: "extends s (caught t out s1)" and
    a2: "a < fresh (caught t out s1)" and p2: "prefix hs (heap (caught t out s1) a)"
    by blast
  from Suc.prems have kn: "Suc k + n = length hs" by simp
  from Suc.IH [OF w2 a2 p2 kn fe] have "ds' = map (\<lambda>l. (l, p)) (drop (Suc k) hs)"
    and "well_formed s'" and "extends (caught t out s1) s'" by simp_all
  moreover from Cons_nth_drop_Suc [OF k] have "drop k hs = hs ! k # drop (Suc k) hs"
    by simp
  ultimately show ?case
    using e2 ds extends_trans [of s "caught t out s1" s'] by simp
qed

lemma emit_with_sound:
  assumes sp: "sound pub"
  shows "sound (emit_with pub L)"
  unfolding sound_def
proof (intro allI impI, elim conjE)
  fix t p s ds s'
  assume w: "well_formed s" and e: "emit_with pub L t p s = Inr (ds, s')"
  show "well_formed s' \<and> extends s s'"
  proof (cases "lookup s t")
    case Absent
    with e w show ?thesis by (auto simp add: emit_with_def extends_refl)
  next
    case Inherited
    with e show ?thesis by (simp add: emit_with_def)
  next
    case (Array a)
    then have ev: "events s t = Some a" by (simp add: lookup_Array)
    with w have a: "a < fresh s" by (simp add: well_formed_def)
    from Array e have fe: "forEach pub L t p a 0 (length (heap s a)) s = (ds, s')"
      by (auto simp add: emit_with_def)
    from forEach_snapshot [OF sp w a _ _ fe, of "heap s a"] show ?thesis by simp
  qed
qed

lemma emit_sound: "sound (emit n L)"
proof (induction n)
  case 0
  show ?case by (simp add: sound_def)
next
  case (Suc n)
  then show ?case by (simp add: emit_with_sound)
qed

text \<open>A call of \<^verbatim>\<open>emit\<close> for which the stack has room calls the listeners of the start.\<close>

lemma emit_returns:
  assumes "well_formed s" "lookup s t \<noteq> Inherited"
  shows "\<exists>s'. emit (Suc depth) L t p s = Inr (map (\<lambda>l. (l, p)) (listeners s t), s')
           \<and> well_formed s' \<and> extends s s'"
proof (cases "lookup s t")
  case Absent
  then have "events s t = None" by (simp add: lookup_def split: option.splits)
  with Absent assms show ?thesis
    by (auto simp add: emit_with_def listeners_def extends_refl)
next
  case Inherited
  with assms show ?thesis by simp
next
  case (Array a)
  then have ev: "events s t = Some a" by (simp add: lookup_Array)
  with assms have a: "a < fresh s" by (simp add: well_formed_def)
  obtain ds s' where fe: "forEach (emit depth L) L t p a 0 (length (heap s a)) s = (ds, s')"
    by (cases "forEach (emit depth L) L t p a 0 (length (heap s a)) s")
  with Array have r: "emit (Suc depth) L t p s = Inr (ds, s')"
    by (simp add: emit_with_def)
  from forEach_snapshot [OF emit_sound assms(1) a _ _ fe, of "heap s a"] r ev show ?thesis
    by (simp add: listeners_def)
qed

lemma emit_Inherited:
  "lookup s t = Inherited \<Longrightarrow> emit (Suc depth) L t p s = Inl TypeError"
  by (simp add: emit_with_def)

lemma Inherited_no_listeners: "lookup s t = Inherited \<Longrightarrow> listeners s t = []"
  by (simp add: lookup_def listeners_def split: option.splits)

lemma emit_snapshot:
  assumes "well_formed s"
  shows "delivered (emit (Suc depth) L t p s) = map (\<lambda>l. (l, p)) (listeners s t)"
proof (cases "lookup s t = Inherited")
  case True
  then show ?thesis
    by (simp add: emit_Inherited Inherited_no_listeners delivered_def del: emit.simps)
next
  case False
  from emit_returns [OF assms False, of depth L p] show ?thesis
    by (auto simp add: delivered_def simp del: emit.simps)
qed

lemma emit_raises: "emit depth L t p s = Inl e \<Longrightarrow> e = TypeError \<or> e = RangeError"
  by (cases depth) (auto simp add: emit_with_def split: slot.splits)

subsection \<open>What the log records\<close>







subsection \<open>Subscriptions\<close>

lemma listeners_nonempty_Array:
  assumes "listeners s t \<noteq> []"
  shows "\<exists>a. lookup s t = Array a"
proof (cases "events s t")
  case None
  with assms show ?thesis by (simp add: listeners_def)
next
  case (Some a)
  then show ?thesis by (simp add: lookup_Array)
qed

lemma not_inherited_name: "t \<notin> set object_prototype_keys \<Longrightarrow> lookup s t \<noteq> Inherited"
  by (simp add: lookup_def split: option.splits)

lemma on_Inr_not_Inherited: "on t l s = Inr s' \<Longrightarrow> lookup s t \<noteq> Inherited"
  by (auto simp add: on_def)

lemma off_Inr_not_Inherited: "off t l s = Inr s' \<Longrightarrow> lookup s t \<noteq> Inherited"
  by (auto simp add: off_def)

lemma on_listeners:
  assumes "well_formed s" "lookup s t \<noteq> Inherited"
  shows "\<exists>s'. on t l s = Inr s' \<and> listeners s' t = listeners s t @ [l]
           \<and> (\<forall>u. u \<noteq> t \<longrightarrow> listeners s' u = listeners s u)"
proof (cases "lookup s t")
  case Absent
  then have ev: "events s t = None"
    by (simp add: lookup_def split: option.splits if_splits)
  let ?s' = "s\<lparr>events := (events s)(t \<mapsto> fresh s),
      heap := (heap s)(fresh s := [l]), fresh := Suc (fresh s)\<rparr>"
  from Absent ev have "on t l s = Inr ?s'"
    by (auto simp add: on_def lookup_def)
  moreover from ev have "listeners ?s' t = listeners s t @ [l]"
    by (simp add: listeners_def)
  moreover from assms(1) have "\<forall>u. u \<noteq> t \<longrightarrow> listeners ?s' u = listeners s u"
    by (auto simp add: listeners_def well_formed_def split: option.splits)
  ultimately show ?thesis by blast
next
  case Inherited
  with assms show ?thesis by simp
next
  case (Array a)
  then have ev: "events s t = Some a" by (simp add: lookup_Array)
  let ?s' = "s\<lparr>heap := (heap s)(a := heap s a @ [l])\<rparr>"
  from Array ev have "on t l s = Inr ?s'"
    by (simp add: on_def)
  moreover from ev have "listeners ?s' t = listeners s t @ [l]"
    by (simp add: listeners_def)
  moreover from assms(1) ev have "\<forall>u. u \<noteq> t \<longrightarrow> listeners ?s' u = listeners s u"
    by (auto simp add: listeners_def well_formed_def split: option.splits)
  ultimately show ?thesis by blast
qed

lemma off_listeners:
  assumes "well_formed s" "lookup s t \<noteq> Inherited"
  shows "\<exists>s'. off t l s = Inr s' \<and> listeners s' t = filter (\<lambda>x. x \<noteq> l) (listeners s t)
           \<and> (\<forall>u. u \<noteq> t \<longrightarrow> listeners s' u = listeners s u)
           \<and> (filter (\<lambda>x. x \<noteq> l) (listeners s t) = [] \<longrightarrow> t \<notin> getEvents s')
           \<and> (\<forall>u. u \<noteq> t \<longrightarrow> (u \<in> getEvents s') = (u \<in> getEvents s))"
proof (cases "lookup s t")
  case Absent
  then have ev: "events s t = None"
    by (simp add: lookup_def split: option.splits if_splits)
  from Absent have "off t l s = Inr s" by (simp add: off_def)
  with ev show ?thesis by (simp add: listeners_def getEvents_def dom_def)
next
  case Inherited
  with assms show ?thesis by simp
next
  case (Array a)
  then have ev: "events s t = Some a" by (simp add: lookup_Array)
  let ?xs = "filter (\<lambda>x. x \<noteq> l) (heap s a)"
  let ?s1 = "s\<lparr>events := (events s)(t \<mapsto> fresh s),
      heap := (heap s)(fresh s := ?xs), fresh := Suc (fresh s)\<rparr>"
  let ?s' = "if length ?xs = 0 then ?s1\<lparr>events := (events ?s1)(t := None)\<rparr> else ?s1"
  from Array have o: "off t l s = Inr ?s'"
    by (simp add: off_def lookup_def Let_def)
  from ev have l1: "listeners ?s' t = filter (\<lambda>x. x \<noteq> l) (listeners s t)"
    by (simp add: listeners_def)
  from assms(1) have l2: "\<forall>u. u \<noteq> t \<longrightarrow> listeners ?s' u = listeners s u"
    by (auto simp add: listeners_def well_formed_def split: option.splits)
  from ev have l3: "filter (\<lambda>x. x \<noteq> l) (listeners s t) = [] \<longrightarrow> t \<notin> getEvents ?s'"
    by (simp add: listeners_def getEvents_def)
  have l4: "\<forall>u. u \<noteq> t \<longrightarrow> (u \<in> getEvents ?s') = (u \<in> getEvents s)"
    by (simp add: getEvents_def dom_def)
  from o l1 l2 l3 l4 show ?thesis by simp
qed

lemma off_keeps_topic:
  assumes "off t l s = Inr s'" "filter (\<lambda>x. x \<noteq> l) (listeners s t) \<noteq> []"
  shows "t \<in> getEvents s'"
proof (cases "events s t")
  case None
  with assms show ?thesis by (simp add: listeners_def)
next
  case (Some a)
  then have "lookup s t = Array a" by (simp add: lookup_Array)
  with assms Some show ?thesis
    by (auto simp add: off_def lookup_def Let_def listeners_def getEvents_def split: if_splits)
qed

lemma emit_no_listeners:
  assumes "listeners s t = []" "lookup s t \<noteq> Inherited"
  shows "emit (Suc depth) L t p s = Inr ([], s)"
proof (cases "lookup s t")
  case Absent
  then show ?thesis by (simp add: emit_with_def)
next
  case Inherited
  with assms show ?thesis by simp
next
  case (Array a)
  then have "events s t = Some a" by (simp add: lookup_Array)
  with assms have "heap s a = []" by (simp add: listeners_def)
  with Array show ?thesis by (simp add: emit_with_def)
qed

subsection \<open>Room on the stack\<close>

text \<open>
  The log only grows, so the number of overflows it records only grows. A call that
  ended within the stack gives the same result when the stack has more room; and when
  the table and the bus are layered, a call on a topic ranked below the room there is
  ends within the stack.
\<close>

lemma overflows_mono: "extends s s' \<Longrightarrow> overflows s \<le> overflows s'"
proof -
  assume "extends s s'"
  then obtain x where "errlog s' = errlog s @ x"
    by (auto simp add: extends_def prefix_def)
  then show ?thesis by (simp add: overflows_def)
qed

lemma overflows_caught:
  "overflows (caught t out s) = overflows s + (if out = Raised RangeError then 1 else 0)"
  by (cases out) (simp_all add: caught_def overflows_def)

lemma overflows_on: "on t l s = Inr s' \<Longrightarrow> overflows s' = overflows s"
  by (simp add: overflows_def on_errlog)

lemma overflows_off: "off t l s = Inr s' \<Longrightarrow> overflows s' = overflows s"
  by (simp add: overflows_def off_errlog)

lemma run_body_deeper:
  assumes sp: "sound pub"
    and le: "\<And>t p s. well_formed s \<Longrightarrow> within_stack s (pub t p s) \<Longrightarrow> pub' t p s = pub t p s"
  shows "well_formed s \<Longrightarrow> run_body pub cs s = (out, s') \<Longrightarrow> out \<noteq> Raised RangeError
    \<Longrightarrow> overflows s' = overflows s \<Longrightarrow> run_body pub' cs s = (out, s')"
proof (induction cs arbitrary: s)
  case Nil
  then show ?case by simp
next
  case (Cons c cs)
  show ?case
  proof (cases c)
    case (On t l)
    show ?thesis
    proof (cases "on t l s")
      case (Inl e)
      with Cons.prems On show ?thesis by simp
    next
      case (Inr s1)
      from on_Inr [OF Cons.prems(1) Inr] have w1: "well_formed s1" by simp
      from Cons.prems On Inr have rb: "run_body pub cs s1 = (out, s')" by simp
      from Cons.prems(4) overflows_on [OF Inr] have "overflows s' = overflows s1" by simp
      from Cons.IH [OF w1 rb Cons.prems(3) this] On Inr show ?thesis by simp
    qed
  next
    case (Off t l)
    show ?thesis
    proof (cases "off t l s")
      case (Inl e)
      with Cons.prems Off show ?thesis by simp
    next
      case (Inr s1)
      from off_Inr [OF Cons.prems(1) Inr] have w1: "well_formed s1" by simp
      from Cons.prems Off Inr have rb: "run_body pub cs s1 = (out, s')" by simp
      from Cons.prems(4) overflows_off [OF Inr] have "overflows s' = overflows s1" by simp
      from Cons.IH [OF w1 rb Cons.prems(3) this] Off Inr show ?thesis by simp
    qed
  next
    case (Emit t p)
    show ?thesis
    proof (cases "pub t p s")
      case (Inl e)
      with Cons.prems Emit have out: "out = Raised e" and s': "s' = s" by simp_all
      with Cons.prems(3) Inl have "within_stack s (pub t p s)"
        by (auto simp add: within_stack_def)
      from le [OF Cons.prems(1) this] Inl out s' Emit show ?thesis by simp
    next
      case (Inr x)
      obtain ds s1 where x: "x = (ds, s1)" by (cases x)
      from Inr x have p: "pub t p s = Inr (ds, s1)" by simp
      from soundD [OF sp Cons.prems(1) p] have w1: "well_formed s1" and e1: "extends s s1"
        by simp_all
      from Cons.prems Emit p have rb: "run_body pub cs s1 = (out, s')" by simp
      from run_body_sound [OF sp w1 rb] have e2: "extends s1 s'" by simp
      from overflows_mono [OF e1] overflows_mono [OF e2] Cons.prems(4)
      have o1: "overflows s1 = overflows s" and o2: "overflows s' = overflows s1" by simp_all
      from p o1 have "within_stack s (pub t p s)" by (simp add: within_stack_def)
      from le [OF Cons.prems(1) this] p have p': "pub' t p s = Inr (ds, s1)" by simp
      from Cons.IH [OF w1 rb Cons.prems(3) o2] Emit p' show ?thesis by simp
    qed
  next
    case Throw
    with Cons.prems show ?thesis by simp
  qed
qed

lemma forEach_deeper:
  assumes sp: "sound pub"
    and le: "\<And>t p s. well_formed s \<Longrightarrow> within_stack s (pub t p s) \<Longrightarrow> pub' t p s = pub t p s"
  shows "well_formed s \<Longrightarrow> a < fresh s \<Longrightarrow> prefix hs (heap s a) \<Longrightarrow> k + n = length hs
    \<Longrightarrow> forEach pub L t p a k n s = (ds, s') \<Longrightarrow> overflows s' = overflows s
    \<Longrightarrow> forEach pub' L t p a k n s = (ds, s')"
proof (induction n arbitrary: k s ds)
  case 0
  then show ?case by simp
next
  case (Suc n)
  from Suc.prems have k: "k < length hs" by simp
  from Suc.prems(3) k have kh: "k < length (heap s a)"
    using prefix_length_le by fastforce
  from Suc.prems(3) k have nth: "heap s a ! k = hs ! k"
    by (auto simp add: prefix_def nth_append)
  from forEach_unfold [OF sp Suc.prems(1,2,3) k Suc.prems(5)] obtain out s1 ds' where
    rb: "run_body pub (L (hs ! k) p) s = (out, s1)" and
    fe: "forEach pub L t p a (Suc k) n (caught t out s1) = (ds', s')" and
    ds: "ds = (hs ! k, p) # ds'" and
    e1: "extends s s1" and
    w2: "well_formed (caught t out s1)" and
    a2: "a < fresh (caught t out s1)" and p2: "prefix hs (heap (caught t out s1) a)"
    by blast
  let ?s2 = "caught t out s1"
  from Suc.prems have kn: "Suc k + n = length hs" by simp
  from forEach_snapshot [OF sp w2 a2 p2 kn fe] have e3: "extends ?s2 s'" by simp
  from overflows_mono [OF e1] overflows_mono [OF e3] overflows_caught [of t out s1] Suc.prems(6)
  have o1: "overflows s1 = overflows s" and o3: "overflows s' = overflows ?s2"
    and out: "out \<noteq> Raised RangeError"
    by (simp_all split: if_splits)
  from run_body_deeper [of pub pub', OF sp le Suc.prems(1) rb out o1]
  have rb': "run_body pub' (L (hs ! k) p) s = (out, s1)" .
  from Suc.IH [OF w2 a2 p2 kn fe o3]
  have "forEach pub' L t p a (Suc k) n ?s2 = (ds', s')" .
  with rb' kh nth ds show ?case by simp
qed

lemma emit_deeper_Suc:
  "well_formed s \<Longrightarrow> within_stack s (emit depth L t p s)
     \<Longrightarrow> emit (Suc depth) L t p s = emit depth L t p s"
proof (induction depth arbitrary: t p s)
  case 0
  then show ?case by (simp add: within_stack_def)
next
  case (Suc depth)
  have le: "\<And>t p s. well_formed s \<Longrightarrow> within_stack s (emit depth L t p s)
              \<Longrightarrow> emit (Suc depth) L t p s = emit depth L t p s"
    by (rule Suc.IH)
  show ?case
  proof (cases "lookup s t")
    case Absent
    then show ?thesis by (simp add: emit_with_def)
  next
    case Inherited
    then show ?thesis by (simp add: emit_with_def)
  next
    case (Array a)
    then have ev: "events s t = Some a" by (simp add: lookup_Array)
    with Suc.prems have a: "a < fresh s" by (simp add: well_formed_def)
    obtain ds s' where fe: "forEach (emit depth L) L t p a 0 (length (heap s a)) s = (ds, s')"
      by (cases "forEach (emit depth L) L t p a 0 (length (heap s a)) s")
    with Array Suc.prems(2) have o: "overflows s' = overflows s"
      by (simp add: emit_with_def within_stack_def)
    from forEach_deeper [of "emit depth L" "emit (Suc depth) L", OF emit_sound le
        Suc.prems(1) a _ _ fe o, of "heap s a"]
    have "forEach (emit (Suc depth) L) L t p a 0 (length (heap s a)) s = (ds, s')"
      by simp
    with fe Array show ?thesis by (simp add: emit_with_def)
  qed
qed

lemma emit_deeper:
  assumes "well_formed s" "within_stack s (emit depth L t p s)"
  shows "emit (depth + extra) L t p s = emit depth L t p s"
proof (induction extra)
  case 0
  show ?case by simp
next
  case (Suc extra)
  from Suc assms(2) have "within_stack s (emit (depth + extra) L t p s)" by simp
  from emit_deeper_Suc [OF assms(1) this] Suc show ?case
    by (simp del: emit.simps)
qed

lemma caught_listeners: "listeners (caught t out s) u = listeners s u"
  by (cases out; cases "events s u") (simp_all add: caught_def listeners_def)

lemma bus_layered_caught: "bus_layered rk L (caught t out s) = bus_layered rk L s"
  by (simp add: bus_layered_def caught_listeners)

lemma bus_layered_on:
  assumes "well_formed s" "bus_layered rk L s" "fits rk L l t" "on t l s = Inr s'"
  shows "bus_layered rk L s'"
proof -
  from on_listeners [OF assms(1) on_Inr_not_Inherited [OF assms(4)], of l] assms(4)
  have t: "listeners s' t = listeners s t @ [l]"
    and u: "\<forall>u. u \<noteq> t \<longrightarrow> listeners s' u = listeners s u"
    by auto
  show ?thesis
    unfolding bus_layered_def
  proof (intro allI ballI)
    fix u h
    assume h: "h \<in> set (listeners s' u)"
    show "fits rk L h u"
    proof (cases "u = t")
      case True
      with h t assms(2,3) show ?thesis by (auto simp add: bus_layered_def)
    next
      case False
      with h u assms(2) show ?thesis by (auto simp add: bus_layered_def)
    qed
  qed
qed

lemma bus_layered_off:
  assumes "well_formed s" "bus_layered rk L s" "off t l s = Inr s'"
  shows "bus_layered rk L s'"
proof -
  from off_listeners [OF assms(1) off_Inr_not_Inherited [OF assms(3)], of l] assms(3)
  have t: "listeners s' t = filter (\<lambda>x. x \<noteq> l) (listeners s t)"
    and u: "\<forall>u. u \<noteq> t \<longrightarrow> listeners s' u = listeners s u"
    by auto
  show ?thesis
    unfolding bus_layered_def
  proof (intro allI ballI)
    fix u h
    assume h: "h \<in> set (listeners s' u)"
    show "fits rk L h u"
    proof (cases "u = t")
      case True
      with h t assms(2) show ?thesis by (auto simp add: bus_layered_def)
    next
      case False
      with h u assms(2) show ?thesis by (auto simp add: bus_layered_def)
    qed
  qed
qed

lemma run_body_layered:
  assumes sp: "sound pub"
    and ok: "\<And>t' p' s. well_formed s \<Longrightarrow> bus_layered rk L s \<Longrightarrow> rk t' < r
               \<Longrightarrow> within_stack s (pub t' p' s)
                   \<and> (\<forall>ds s'. pub t' p' s = Inr (ds, s') \<longrightarrow> bus_layered rk L s')"
  shows "well_formed s \<Longrightarrow> bus_layered rk L s
    \<Longrightarrow> \<forall>c \<in> set cs. publishes_below rk r c \<and> subscribes_fitting rk L c
    \<Longrightarrow> run_body pub cs s = (out, s')
    \<Longrightarrow> out \<noteq> Raised RangeError \<and> overflows s' = overflows s \<and> bus_layered rk L s'"
proof (induction cs arbitrary: s)
  case Nil
  then show ?case by auto
next
  case (Cons c cs)
  from Cons.prems(3) have rest: "\<forall>c \<in> set cs. publishes_below rk r c \<and> subscribes_fitting rk L c"
    by simp
  show ?case
  proof (cases c)
    case (On t l)
    show ?thesis
    proof (cases "on t l s")
      case (Inl e)
      with Cons.prems On on_raises [OF Inl] show ?thesis by auto
    next
      case (Inr s1)
      from on_Inr [OF Cons.prems(1) Inr] have w1: "well_formed s1" by simp
      from Cons.prems(3) On have "fits rk L l t" by simp
      from bus_layered_on [OF Cons.prems(1,2) this Inr] have b1: "bus_layered rk L s1" .
      from Cons.prems On Inr have rb: "run_body pub cs s1 = (out, s')" by simp
      from Cons.IH [OF w1 b1 rest rb] overflows_on [OF Inr] show ?thesis by simp
    qed
  next
    case (Off t l)
    show ?thesis
    proof (cases "off t l s")
      case (Inl e)
      with Cons.prems Off off_raises [OF Inl] show ?thesis by auto
    next
      case (Inr s1)
      from off_Inr [OF Cons.prems(1) Inr] have w1: "well_formed s1" by simp
      from bus_layered_off [OF Cons.prems(1,2) Inr] have b1: "bus_layered rk L s1" .
      from Cons.prems Off Inr have rb: "run_body pub cs s1 = (out, s')" by simp
      from Cons.IH [OF w1 b1 rest rb] overflows_off [OF Inr] show ?thesis by simp
    qed
  next
    case (Emit t p)
    from Cons.prems(3) Emit have "rk t < r" by simp
    from ok [OF Cons.prems(1,2) this, of p]
    have ws: "within_stack s (pub t p s)"
      and bl: "\<forall>ds s'. pub t p s = Inr (ds, s') \<longrightarrow> bus_layered rk L s'"
      by simp_all
    show ?thesis
    proof (cases "pub t p s")
      case (Inl e)
      with ws have "e \<noteq> RangeError" by (simp add: within_stack_def)
      with Cons.prems Emit Inl show ?thesis by auto
    next
      case (Inr x)
      obtain ds s1 where x: "x = (ds, s1)" by (cases x)
      from Inr x have p: "pub t p s = Inr (ds, s1)" by simp
      from soundD [OF sp Cons.prems(1) p] have w1: "well_formed s1" by simp
      from bl p have b1: "bus_layered rk L s1" by blast
      from ws p have o1: "overflows s1 = overflows s" by (simp add: within_stack_def)
      from Cons.prems Emit p have rb: "run_body pub cs s1 = (out, s')" by simp
      from Cons.IH [OF w1 b1 rest rb] o1 show ?thesis by simp
    qed
  next
    case Throw
    with Cons.prems show ?thesis by auto
  qed
qed

lemma forEach_layered:
  assumes lay: "layered rk L" and sp: "sound pub"
    and ok: "\<And>t' p' s. well_formed s \<Longrightarrow> bus_layered rk L s \<Longrightarrow> rk t' < rk t
               \<Longrightarrow> within_stack s (pub t' p' s)
                   \<and> (\<forall>ds s'. pub t' p' s = Inr (ds, s') \<longrightarrow> bus_layered rk L s')"
    and hs: "\<forall>l \<in> set hs. fits rk L l t"
  shows "well_formed s \<Longrightarrow> bus_layered rk L s \<Longrightarrow> a < fresh s \<Longrightarrow> prefix hs (heap s a)
    \<Longrightarrow> k + n = length hs \<Longrightarrow> forEach pub L t p a k n s = (ds, s')
    \<Longrightarrow> overflows s' = overflows s \<and> bus_layered rk L s'"
proof (induction n arbitrary: k s ds)
  case 0
  then show ?case by simp
next
  case (Suc n)
  from Suc.prems have k: "k < length hs" by simp
  from forEach_unfold [OF sp Suc.prems(1,3,4) k Suc.prems(6)] obtain out s1 ds' where
    rb: "run_body pub (L (hs ! k) p) s = (out, s1)" and
    fe: "forEach pub L t p a (Suc k) n (caught t out s1) = (ds', s')" and
    w2: "well_formed (caught t out s1)" and
    a2: "a < fresh (caught t out s1)" and p2: "prefix hs (heap (caught t out s1) a)"
    by blast
  from hs k have "fits rk L (hs ! k) t" by simp
  with lay have body: "\<forall>c \<in> set (L (hs ! k) p).
      publishes_below rk (rk t) c \<and> subscribes_fitting rk L c"
    by (simp add: fits_def layered_def)
  from run_body_layered [of pub rk L "rk t", OF sp ok Suc.prems(1,2) body rb]
  have out: "out \<noteq> Raised RangeError" and o1: "overflows s1 = overflows s"
    and b1: "bus_layered rk L s1"
    by simp_all
  from b1 have b2: "bus_layered rk L (caught t out s1)" by (simp add: bus_layered_caught)
  from out o1 have o2: "overflows (caught t out s1) = overflows s"
    by (simp add: overflows_caught)
  from Suc.prems have kn: "Suc k + n = length hs" by simp
  from Suc.IH [OF w2 b2 a2 p2 kn fe] o2 show ?case by simp
qed

lemma emit_layered:
  assumes lay: "layered rk L"
  shows "well_formed s \<Longrightarrow> bus_layered rk L s \<Longrightarrow> rk t < depth
    \<Longrightarrow> within_stack s (emit depth L t p s)
        \<and> (\<forall>ds s'. emit depth L t p s = Inr (ds, s') \<longrightarrow> bus_layered rk L s')"
proof (induction depth arbitrary: t p s)
  case 0
  then show ?case by simp
next
  case (Suc depth)
  have ok: "\<And>t' p' s. well_formed s \<Longrightarrow> bus_layered rk L s \<Longrightarrow> rk t' < rk t
               \<Longrightarrow> within_stack s (emit depth L t' p' s)
                   \<and> (\<forall>ds s'. emit depth L t' p' s = Inr (ds, s') \<longrightarrow> bus_layered rk L s')"
  proof -
    fix t' p' s
    assume w: "well_formed s" and b: "bus_layered rk L s" and r: "rk t' < rk t"
    from r Suc.prems(3) have "rk t' < depth" by simp
    from Suc.IH [OF w b this]
    show "within_stack s (emit depth L t' p' s)
                   \<and> (\<forall>ds s'. emit depth L t' p' s = Inr (ds, s') \<longrightarrow> bus_layered rk L s')" .
  qed
  show ?case
  proof (cases "lookup s t")
    case Absent
    with Suc.prems show ?thesis by (simp add: emit_with_def within_stack_def)
  next
    case Inherited
    then show ?thesis by (simp add: emit_with_def within_stack_def)
  next
    case (Array a)
    then have ev: "events s t = Some a" by (simp add: lookup_Array)
    with Suc.prems have a: "a < fresh s" by (simp add: well_formed_def)
    from ev Suc.prems(2) have hs: "\<forall>l \<in> set (heap s a). fits rk L l t"
      by (auto simp add: bus_layered_def listeners_def)
    obtain ds s' where fe: "forEach (emit depth L) L t p a 0 (length (heap s a)) s = (ds, s')"
      by (cases "forEach (emit depth L) L t p a 0 (length (heap s a)) s")
    from forEach_layered [of rk L "emit depth L" t "heap s a", OF lay emit_sound ok hs
        Suc.prems(1,2) a _ _ fe]
    have "overflows s' = overflows s \<and> bus_layered rk L s'" by simp
    with fe Array show ?thesis by (simp add: emit_with_def within_stack_def)
  qed
qed

subsection \<open>The example inputs\<close>

lemma iso_at_first: "toISOString at_first = ''2024-03-15T10:30:00.000Z''"
  by code_simp

lemma iso_at_second: "toISOString at_second = ''2024-03-15T10:30:05.000Z''"
  by code_simp

lemma test_order_fields:
  "field_of test_order ''orderId'' = Str ''TEST123''"
  "field_of test_order ''email'' = Str ''test@example.com''"
  "field_of test_order ''item'' = Str ''MacBook Pro''"
  by (simp_all add: test_order_def field_of_def)

lemma bare_order_fields:
  "field_of bare_order ''orderId'' = Str ''TEST123''"
  "field_of bare_order ''email'' = Undefined"
  "field_of bare_order ''item'' = Undefined"
  by (simp_all add: bare_order_def field_of_def)

lemma unknown_item_order_fields:
  "field_of unknown_item_order ''orderId'' = Str ''UNAVAIL123''"
  "field_of unknown_item_order ''item'' = Str ''Nonexistent Product''"
  by (simp_all add: unknown_item_order_def field_of_def)

lemma half_order_fields:
  "field_of half_order ''orderId'' = Str ''HALF1''"
  "field_of half_order ''item'' = Str ''Half''"
  by (simp_all add: half_order_def field_of_def)

lemma inventory_seed:
  "inventory InventoryService (Str ''MacBook Pro'') = Some \<lparr>stock = 10, price = 239999 / 100, category = ''laptops''\<rparr>"
  "inventory InventoryService (Str ''Nonexistent Product'') = None"
  by (simp_all add: InventoryService_def)

lemma two_listeners_well_formed: "well_formed two_listeners"
  by (simp add: well_formed_def two_listeners_def)

lemma subscribed_twice_well_formed: "well_formed subscribed_twice"
  by (simp add: well_formed_def subscribed_twice_def)

lemma saga_bus_well_formed: "well_formed saga_bus"
  by (auto simp add: well_formed_def saga_bus_def split: if_splits)

lemma two_listeners_listeners: "listeners two_listeners ''t'' = [1, 2]"
  by (simp add: listeners_def two_listeners_def)

lemma subscribed_twice_listeners: "listeners subscribed_twice ''t'' = [7, 7]"
  by (simp add: listeners_def subscribed_twice_def)

lemma saga_bus_listeners:
  "listeners saga_bus t =
     (if t = ''order:inventory_reserved'' then [2] else if t = ''order:created'' then [1, 3] else [])"
  by (simp add: listeners_def saga_bus_def)


lemma subscribed_twice_reached:
  "map_sum id (on ''t'' 7) (on ''t'' 7 EventBus) = Inr (Inr subscribed_twice)"
  by (simp add: on_def lookup_def EventBus_def subscribed_twice_def object_prototype_keys_def)



lemma emit_first_rewires:
  "emit (Suc 0) first_rewires ''t'' (42::nat) two_listeners
     = Inr ([(1, 42), (2, 42)],
         \<lparr>events = [''t'' \<mapsto> 1], heap = (\<lambda>a. [])(0 := [1, 2, 3], 1 := [1, 3]), fresh = 2, errlog = []\<rparr>)"
  by (simp add: emit_with_def lookup_def two_listeners_def first_rewires_def caught_def on_def off_def
      Let_def)

lemma emit_saga:
  "emit (Suc (Suc 0)) saga ''order:created'' (42::nat) saga_bus
     = Inr ([(1, 42), (3, 42)], saga_bus\<lparr>errlog := [(''order:inventory_reserved'', Thrown)]\<rparr>)"
  by (simp add: emit_with_def lookup_def saga_bus_def saga_def caught_def)

text \<open>
  With room for the publish on \<open>order:created\<close> alone, the nested publish of listener 1
  is a stack overflow, which the bus catches like any other exception.
\<close>

lemma emit_saga_no_room:
  "emit (Suc 0) saga ''order:created'' (42::nat) saga_bus
     = Inr ([(1, 42), (3, 42)], saga_bus\<lparr>errlog := [(''order:created'', RangeError)]\<rparr>)"
  by (simp add: emit_with_def lookup_def saga_bus_def saga_def caught_def)

lemma saga_layered: "layered saga_rank (saga :: nat bodies)"
  by (simp add: layered_def saga_def)

lemma saga_bus_layered: "bus_layered saga_rank (saga :: nat bodies) saga_bus"
  by (simp add: bus_layered_def saga_bus_listeners fits_def saga_def saga_rank_def)

subsection \<open>The inventory ledger\<close>

lemma whole_of_int: "whole (of_int k)"
  by (simp add: whole_def)

lemma whole_cases:
  assumes "whole x"
  obtains k where "x = of_int k"
  using assms by (metis whole_def)

lemma whole_add: "whole x \<Longrightarrow> whole y \<Longrightarrow> whole (x + y)"
  by (elim whole_cases) (simp add: whole_def)

lemma whole_positive_pred:
  assumes "whole x" "0 < x"
  shows "whole (x - 1) \<and> 0 \<le> x - 1"
proof -
  from assms(1) obtain k where k: "x = of_int k" by (rule whole_cases)
  with assms(2) have "1 \<le> k" by simp
  then have "(0::rat) \<le> of_int k - 1" by simp
  moreover have "whole (of_int (k - 1))" by (rule whole_of_int)
  ultimately show ?thesis using k by simp
qed

lemma same_reservation:
  assumes "reservations s k = Some r"
  shows "s\<lparr>reservations := (reservations s)(k \<mapsto> r)\<rparr> = s"
proof -
  from assms have "(reservations s)(k \<mapsto> r) = reservations s"
    by (simp add: fun_upd_idem)
  then show ?thesis by simp
qed

lemma reserved_then_delivered:
  "reservations (snd (handleDelivery at_first test_order
       (snd (checkAndReserveItem at_first test_order InventoryService)))) (Str ''TEST123'')
   = Some \<lparr>item = Str ''MacBook Pro'', quantity = 1, price_r = 239999 / 100,
            reservedAt = ''2024-03-15T10:30:00.000Z'', status = ''fulfilled'',
            fulfilledAt = Some ''2024-03-15T10:30:00.000Z''\<rparr>"
  by (simp add: handleDelivery_def checkAndReserveItem_def test_order_fields inventory_seed
      iso_at_first Let_def)

lemma stock_known:
  "stocks_whole_non_negative s \<Longrightarrow> inventory s name = Some it \<Longrightarrow> whole (stock it) \<and> 0 \<le> stock it"
  by (auto simp add: stocks_whole_non_negative_def stock_of_def)

lemma stocks_after_update:
  assumes "stocks_whole_non_negative s" "whole (stock it)" "0 \<le> stock it"
  shows "stocks_whole_non_negative (s\<lparr>inventory := (inventory s)(name \<mapsto> it)\<rparr>)"
  using assms by (auto simp add: stocks_whole_non_negative_def stock_of_def)

lemma checkAndReserveItem_keeps:
  assumes "stocks_whole_non_negative s"
  shows "stocks_whole_non_negative (snd (checkAndReserveItem now d s))"
proof (cases "inventory s (field_of d ''item'')")
  case None
  with assms show ?thesis by (simp add: checkAndReserveItem_def)
next
  case (Some it)
  show ?thesis
  proof (cases "stock it \<le> 0")
    case True
    with Some assms show ?thesis by (simp add: checkAndReserveItem_def)
  next
    case False
    from stock_known [OF assms Some] have "whole (stock it)" by simp
    with False whole_positive_pred [of "stock it"]
    have "whole (stock it - 1)" "0 \<le> stock it - 1" by simp_all
    with assms have "stocks_whole_non_negative
        (s\<lparr>inventory := (inventory s)(field_of d ''item'' \<mapsto> it\<lparr>stock := stock it - 1\<rparr>)\<rparr>)"
      by (simp add: stocks_after_update)
    with Some False show ?thesis
      by (simp add: checkAndReserveItem_def Let_def stocks_whole_non_negative_def stock_of_def)
  qed
qed

lemma handleDelivery_keeps:
  "stocks_whole_non_negative s \<Longrightarrow> stocks_whole_non_negative (snd (handleDelivery now d s))"
  by (cases "reservations s (field_of d ''orderId'')")
    (simp_all add: handleDelivery_def stocks_whole_non_negative_def stock_of_def)

lemma addStock_keeps:
  assumes "stocks_whole_non_negative s" "whole q" "0 \<le> q"
  shows "stocks_whole_non_negative (snd (addStock name q s))"
proof (cases "inventory s name")
  case None
  with assms show ?thesis by (simp add: addStock_def)
next
  case (Some it)
  from stock_known [OF assms(1) Some] assms(2,3)
  have "whole (stock it + q)" "0 \<le> stock it + q" by (simp_all add: whole_add)
  with assms(1) have "stocks_whole_non_negative
      (s\<lparr>inventory := (inventory s)(name \<mapsto> it\<lparr>stock := stock it + q\<rparr>)\<rparr>)"
    by (simp add: stocks_after_update)
  with Some show ?thesis by (simp add: addStock_def Let_def)
qed

lemma addProduct_keeps:
  assumes "stocks_whole_non_negative s"
    and "case stock_in itemData of None \<Rightarrow> True | Some n \<Rightarrow> whole n \<and> 0 \<le> n"
  shows "stocks_whole_non_negative (snd (addProduct name itemData s))"
proof -
  let ?n = "case stock_in itemData of Some n \<Rightarrow> if n \<noteq> 0 then n else 0 | None \<Rightarrow> 0"
  from assms(2) whole_of_int [of 0] have "whole ?n \<and> 0 \<le> ?n"
    by (cases "stock_in itemData") auto
  with assms(1) show ?thesis
    by (simp add: addProduct_def stocks_after_update)
qed

lemma call_keeps:
  "stocks_whole_non_negative s \<Longrightarrow> adds_whole_stock c
     \<Longrightarrow> stocks_whole_non_negative (snd (call c s))"
  by (cases c)
    (simp_all add: checkAndReserveItem_keeps handleDelivery_keeps addStock_keeps addProduct_keeps)

lemma InventoryService_whole_non_negative: "stocks_whole_non_negative InventoryService"
proof -
  have "whole (10::rat)" "whole (25::rat)" "whole (15::rat)" "whole (50::rat)" "whole (30::rat)"
    by (simp_all add: whole_def)
  then show ?thesis
    by (auto simp add: stocks_whole_non_negative_def stock_of_def InventoryService_def
        split: if_splits)
qed

section \<open>OrderService: creating orders\<close>

text \<open>
  C3, as the code has it. The claim reads: whenever \<open>orderId\<close>, \<open>email\<close> or \<open>item\<close>
  is missing, \<^verbatim>\<open>createOrder\<close> fails with the validation error; whenever the order id
  is already stored it fails with the duplicate error, whatever the rest of the payload;
  a failed call leaves the store as it was and publishes no \<open>order:created\<close>.
  The guard for missing fields comes first in the code, so a stored id together with a
  missing field is a validation error. The theorem: a missing field gives the validation
  error; an id that is already stored gives the duplicate error provided all three
  fields are there, whatever else the payload holds; and every failed call publishes
  nothing and returns the service unchanged, so the stored record is not overwritten.
\<close>

theorem createOrder_rejects:
  "(missing d ''orderId'' \<or> missing d ''email'' \<or> missing d ''item''
      \<longrightarrow> createOrder now d s = (Inl ValidationError, [], s))
   \<and> (\<not> missing d ''orderId'' \<and> \<not> missing d ''email'' \<and> \<not> missing d ''item''
        \<and> orders s (field_of d ''orderId'') \<noteq> None
      \<longrightarrow> createOrder now d s = (Inl (DuplicateOrderError (field_of d ''orderId'')), [], s))
   \<and> (\<forall>e evs s'. createOrder now d s = (Inl e, evs, s') \<longrightarrow> evs = [] \<and> s' = s)"
  by (auto simp add: createOrder_def Let_def)

theorem createOrder_rejects_witness:
  "createOrder at_first bare_order OrderService = (Inl ValidationError, [], OrderService)
   \<and> createOrder at_second (test_order(''email'' \<mapsto> Str ''other@example.com''))
        (snd (snd (createOrder at_first test_order OrderService)))
      = (Inl (DuplicateOrderError (Str ''TEST123'')), [],
         snd (snd (createOrder at_first test_order OrderService)))"
proof -
  let ?s = "snd (snd (createOrder at_first test_order OrderService))"
  let ?d = "test_order(''email'' \<mapsto> Str ''other@example.com'')"
  have m: "missing bare_order ''email''"
    by (simp add: missing_def bare_order_fields)
  have f: "field_of ?d ''orderId'' = Str ''TEST123''" "\<not> missing ?d ''orderId''"
    "\<not> missing ?d ''email''" "\<not> missing ?d ''item''"
    by (simp_all add: missing_def field_of_def test_order_def)
  have st: "orders ?s (Str ''TEST123'') \<noteq> None"
    by (simp add: createOrder_def missing_def test_order_fields OrderService_def Let_def)
  from createOrder_rejects [of bare_order at_first OrderService] m
  have "createOrder at_first bare_order OrderService = (Inl ValidationError, [], OrderService)"
    by blast
  moreover from createOrder_rejects [of ?d at_second ?s] f st
  have "createOrder at_second ?d ?s = (Inl (DuplicateOrderError (Str ''TEST123'')), [], ?s)"
    by simp
  ultimately show ?thesis by simp
qed

text \<open>
  Where the claim fails as it is written: the id \<open>TEST123\<close> is stored, the second
  payload names it and nothing else, and the call ends in the validation error, not in
  the duplicate error.
\<close>

theorem createOrder_stored_id_without_email:
  "orders (snd (snd (createOrder at_first test_order OrderService))) (Str ''TEST123'') \<noteq> None
   \<and> fst (createOrder at_second bare_order (snd (snd (createOrder at_first test_order OrderService))))
       = Inl ValidationError"
  by (simp add: createOrder_def missing_def test_order_fields bare_order_fields OrderService_def Let_def)

text \<open>
  C4: for a payload with \<open>orderId\<close>, \<open>email\<close> and \<open>item\<close> all present and an order id
  that is not stored yet, \<^verbatim>\<open>createOrder\<close> returns the payload enriched with a
  non-empty \<open>timestamp\<close> and with \<open>status\<close> \<open>created\<close>, stores this very record under
  the order id, and publishes exactly one event, \<open>order:created\<close>, that carries this
  very record. All other fields of the payload are kept.
\<close>

theorem createOrder_valid:
  assumes "\<not> missing d ''orderId''" "\<not> missing d ''email''" "\<not> missing d ''item''"
    and "orders s (field_of d ''orderId'') = None"
  shows "createOrder now d s =
           (Inr (enrich now d), [(''order:created'', enrich now d)],
            s\<lparr>orders := (orders s)(field_of d ''orderId'' \<mapsto> enrich now d)\<rparr>)
         \<and> field_of (enrich now d) ''status'' = Str ''created''
         \<and> field_of (enrich now d) ''timestamp'' = Str (toISOString now)
         \<and> toISOString now \<noteq> []
         \<and> (\<forall>k. k \<noteq> ''timestamp'' \<and> k \<noteq> ''status'' \<longrightarrow> enrich now d k = d k)"
  using assms by (simp add: createOrder_def enrich_def field_of_def toISOString_nonempty Let_def)

theorem createOrder_valid_witness:
  "createOrder at_first test_order OrderService =
     (Inr (test_order(''timestamp'' \<mapsto> Str ''2024-03-15T10:30:00.000Z'', ''status'' \<mapsto> Str ''created'')),
      [(''order:created'',
        test_order(''timestamp'' \<mapsto> Str ''2024-03-15T10:30:00.000Z'', ''status'' \<mapsto> Str ''created''))],
      \<lparr>orders = [Str ''TEST123'' \<mapsto>
        test_order(''timestamp'' \<mapsto> Str ''2024-03-15T10:30:00.000Z'', ''status'' \<mapsto> Str ''created'')]\<rparr>)"
  using createOrder_valid [of test_order OrderService at_first]
  by (simp add: missing_def test_order_fields OrderService_def enrich_def iso_at_first)

section \<open>InventoryService: reserving\<close>

text \<open>
  C2: \<^verbatim>\<open>checkAndReserveItem\<close> on an order whose item is not in the inventory publishes
  \<open>order:inventory_unavailable\<close> and changes nothing; on an item with stock \<open>\<le> 0\<close> it
  publishes \<open>order:out_of_stock\<close> and changes nothing; otherwise the item's stock goes
  down by exactly 1 (price and category stay), the reservation stored under the order id
  has quantity 1 and status \<open>reserved\<close>, no other reservation and no other item changes,
  and the last event published is \<open>order:inventory_reserved\<close> (the only other event it
  may publish is \<open>inventory:low_stock\<close>).
\<close>

theorem checkAndReserveItem_cases:
  "(inventory s (field_of d ''item'') = None
      \<longrightarrow> checkAndReserveItem now d s = ([(''order:inventory_unavailable'', d)], s))
   \<and> (\<forall>it. inventory s (field_of d ''item'') = Some it \<and> stock it \<le> 0
      \<longrightarrow> checkAndReserveItem now d s = ([(''order:out_of_stock'', d)], s))
   \<and> (\<forall>it evs s'. inventory s (field_of d ''item'') = Some it \<and> 0 < stock it
          \<and> checkAndReserveItem now d s = (evs, s')
      \<longrightarrow> inventory s' (field_of d ''item'') = Some (it\<lparr>stock := stock it - 1\<rparr>)
          \<and> (\<forall>other. other \<noteq> field_of d ''item'' \<longrightarrow> inventory s' other = inventory s other)
          \<and> reservations s' (field_of d ''orderId'') =
               Some \<lparr>item = field_of d ''item'', quantity = 1, price_r = price it,
                     reservedAt = toISOString now, status = ''reserved'', fulfilledAt = None\<rparr>
          \<and> (\<forall>other. other \<noteq> field_of d ''orderId''
                \<longrightarrow> reservations s' other = reservations s other)
          \<and> last evs = (''order:inventory_reserved'', d)
          \<and> (\<forall>ev \<in> set evs. ev = (''order:inventory_reserved'', d) \<or> fst ev = ''inventory:low_stock''))"
  by (auto simp add: checkAndReserveItem_def Let_def)

theorem checkAndReserveItem_cases_witness:
  "checkAndReserveItem at_first unknown_item_order InventoryService
     = ([(''order:inventory_unavailable'', unknown_item_order)], InventoryService)
   \<and> checkAndReserveItem at_first test_order
        (InventoryService\<lparr>inventory := (inventory InventoryService)(Str ''MacBook Pro'' \<mapsto>
            \<lparr>stock = 0, price = 239999 / 100, category = ''laptops''\<rparr>)\<rparr>)
     = ([(''order:out_of_stock'', test_order)],
        InventoryService\<lparr>inventory := (inventory InventoryService)(Str ''MacBook Pro'' \<mapsto>
            \<lparr>stock = 0, price = 239999 / 100, category = ''laptops''\<rparr>)\<rparr>)
   \<and> stock_of (snd (checkAndReserveItem at_first test_order InventoryService)) (Str ''MacBook Pro'') = Some 9
   \<and> stock_of (snd (checkAndReserveItem at_first test_order InventoryService)) (Str ''iPhone 15'') = Some 25
   \<and> reservations (snd (checkAndReserveItem at_first test_order InventoryService)) (Str ''TEST123'')
       = Some \<lparr>item = Str ''MacBook Pro'', quantity = 1, price_r = 239999 / 100,
                reservedAt = ''2024-03-15T10:30:00.000Z'', status = ''reserved'', fulfilledAt = None\<rparr>
   \<and> last (fst (checkAndReserveItem at_first test_order InventoryService))
       = (''order:inventory_reserved'', test_order)"
proof -
  let ?empty = "InventoryService\<lparr>inventory := (inventory InventoryService)(Str ''MacBook Pro'' \<mapsto>
            \<lparr>stock = 0, price = 239999 / 100, category = ''laptops''\<rparr>)\<rparr>"
  obtain evs s' where r: "checkAndReserveItem at_first test_order InventoryService = (evs, s')"
    by (cases "checkAndReserveItem at_first test_order InventoryService")
  from checkAndReserveItem_cases [of InventoryService unknown_item_order at_first]
  have a: "checkAndReserveItem at_first unknown_item_order InventoryService
     = ([(''order:inventory_unavailable'', unknown_item_order)], InventoryService)"
    by (simp add: unknown_item_order_fields inventory_seed)
  from checkAndReserveItem_cases [of ?empty test_order at_first]
  have b: "checkAndReserveItem at_first test_order ?empty = ([(''order:out_of_stock'', test_order)], ?empty)"
    by (simp add: test_order_fields)
  from checkAndReserveItem_cases [of InventoryService test_order at_first] r
  have c: "inventory s' (Str ''MacBook Pro'') = Some \<lparr>stock = 9, price = 239999 / 100, category = ''laptops''\<rparr>"
    "inventory s' (Str ''iPhone 15'') = inventory InventoryService (Str ''iPhone 15'')"
    "reservations s' (Str ''TEST123'') = Some \<lparr>item = Str ''MacBook Pro'', quantity = 1, price_r = 239999 / 100,
                reservedAt = ''2024-03-15T10:30:00.000Z'', status = ''reserved'', fulfilledAt = None\<rparr>"
    "last evs = (''order:inventory_reserved'', test_order)"
    by (simp_all add: test_order_fields inventory_seed iso_at_first)
  from a b c r show ?thesis
    by (simp add: stock_of_def InventoryService_def)
qed


text \<open>
  C9: the threshold of a new ledger is 5. A reservation that succeeds and leaves the
  item's stock exactly at the ledger's threshold publishes \<open>inventory:low_stock\<close> with
  the item, the stock that is left and the threshold, and then \<open>order:inventory_reserved\<close>;
  a reservation that succeeds and leaves the stock one above the threshold publishes
  \<open>order:inventory_reserved\<close> alone.
\<close>

theorem low_stock_boundary:
  "lowStockThreshold InventoryService = 5
   \<and> (\<forall>it. inventory s (field_of d ''item'') = Some it \<and> 0 < stock it
           \<and> stock it - 1 = lowStockThreshold s
      \<longrightarrow> fst (checkAndReserveItem now d s) =
            [(''inventory:low_stock'',
              [''item'' \<mapsto> field_of d ''item'',
               ''currentStock'' \<mapsto> Num (stock it - 1),
               ''threshold'' \<mapsto> Num (lowStockThreshold s)]),
             (''order:inventory_reserved'', d)])
   \<and> (\<forall>it. inventory s (field_of d ''item'') = Some it \<and> 0 < stock it
           \<and> stock it - 1 = lowStockThreshold s + 1
      \<longrightarrow> fst (checkAndReserveItem now d s) = [(''order:inventory_reserved'', d)])"
  by (auto simp add: checkAndReserveItem_def Let_def low_stock_payload_def InventoryService_def)

theorem low_stock_boundary_witness:
  "fst (checkAndReserveItem at_first test_order
          (InventoryService\<lparr>inventory := (inventory InventoryService)(Str ''MacBook Pro'' \<mapsto>
              \<lparr>stock = 6, price = 239999 / 100, category = ''laptops''\<rparr>)\<rparr>))
     = [(''inventory:low_stock'',
         [''item'' \<mapsto> Str ''MacBook Pro'', ''currentStock'' \<mapsto> Num 5, ''threshold'' \<mapsto> Num 5]),
        (''order:inventory_reserved'', test_order)]
   \<and> fst (checkAndReserveItem at_first test_order
          (InventoryService\<lparr>inventory := (inventory InventoryService)(Str ''MacBook Pro'' \<mapsto>
              \<lparr>stock = 7, price = 239999 / 100, category = ''laptops''\<rparr>)\<rparr>))
     = [(''order:inventory_reserved'', test_order)]"
proof -
  let ?six = "InventoryService\<lparr>inventory := (inventory InventoryService)(Str ''MacBook Pro'' \<mapsto>
              \<lparr>stock = 6, price = 239999 / 100, category = ''laptops''\<rparr>)\<rparr>"
  let ?seven = "InventoryService\<lparr>inventory := (inventory InventoryService)(Str ''MacBook Pro'' \<mapsto>
              \<lparr>stock = 7, price = 239999 / 100, category = ''laptops''\<rparr>)\<rparr>"
  have thr: "lowStockThreshold ?six = 5" "lowStockThreshold ?seven = 5"
    by (simp_all add: InventoryService_def)
  from low_stock_boundary [of ?six test_order at_first] thr
  have a: "fst (checkAndReserveItem at_first test_order ?six)
     = [(''inventory:low_stock'',
         [''item'' \<mapsto> Str ''MacBook Pro'', ''currentStock'' \<mapsto> Num 5, ''threshold'' \<mapsto> Num 5]),
        (''order:inventory_reserved'', test_order)]"
    by (simp add: test_order_fields)
  from low_stock_boundary [of ?seven test_order at_first] thr
  have b: "fst (checkAndReserveItem at_first test_order ?seven) = [(''order:inventory_reserved'', test_order)]"
    by (simp add: test_order_fields)
  from a b show ?thesis by simp
qed

section \<open>InventoryService: restocking\<close>

text \<open>
  C10: \<^verbatim>\<open>addStock\<close> for an item name that the inventory does not have publishes
  nothing and returns the ledger as it was (no entry is made); for an item the inventory
  has, it publishes one \<open>inventory:stock_added\<close> event whose \<open>total\<close> is the stock of
  the item after the addition.
\<close>

theorem addStock_cases:
  "(inventory s name = None \<longrightarrow> addStock name q s = ([], s))
   \<and> (\<forall>it. inventory s name = Some it \<longrightarrow>
        addStock name q s =
          ([(''inventory:stock_added'',
             [''item'' \<mapsto> name, ''added'' \<mapsto> Num q,
              ''total'' \<mapsto> Num (stock it + q)])],
           s\<lparr>inventory := (inventory s)(name \<mapsto> it\<lparr>stock := stock it + q\<rparr>)\<rparr>)
        \<and> stock_of (snd (addStock name q s)) name = Some (stock it + q))"
  by (auto simp add: addStock_def Let_def stock_added_payload_def stock_of_def)

theorem addStock_cases_witness:
  "addStock (Str ''Nonexistent Product'') 3 InventoryService = ([], InventoryService)
   \<and> fst (addStock (Str ''MacBook Pro'') 3 InventoryService)
       = [(''inventory:stock_added'',
           [''item'' \<mapsto> Str ''MacBook Pro'', ''added'' \<mapsto> Num 3, ''total'' \<mapsto> Num 13])]
   \<and> stock_of (snd (addStock (Str ''MacBook Pro'') 3 InventoryService)) (Str ''MacBook Pro'') = Some 13"
  using addStock_cases [of InventoryService "Str ''Nonexistent Product''" 3]
    addStock_cases [of InventoryService "Str ''MacBook Pro''" 3]
  by (simp add: inventory_seed stock_of_def)

text \<open>
  C5, as the code has it. The claim reads: whatever operation of the ledger runs, in any
  reachable state, every stock stays a non-negative integer. The code checks neither the
  sign nor the integrality of the quantity given to \<^verbatim>\<open>addStock\<close> or of the stock given
  to \<^verbatim>\<open>addProduct\<close>, and the guard of a reservation, \<^verbatim>\<open>stock <= 0\<close>, lets a stock
  between 0 and 1 pass. The theorem: the stocks of a new ledger are non-negative
  integers, and a run of calls from a ledger whose stocks are non-negative integers
  leaves all stocks non-negative integers, provided every \<^verbatim>\<open>addStock\<close> in it adds
  a non-negative integer and every \<^verbatim>\<open>addProduct\<close> gives a non-negative integer as
  stock, or none; reservations and deliveries need no proviso.
\<close>

theorem stocks_stay_whole_non_negative:
  "stocks_whole_non_negative InventoryService
   \<and> (stocks_whole_non_negative s \<and> list_all adds_whole_stock cs
        \<longrightarrow> stocks_whole_non_negative (run cs s))"
proof
  show "stocks_whole_non_negative InventoryService"
    by (rule InventoryService_whole_non_negative)
  show "stocks_whole_non_negative s \<and> list_all adds_whole_stock cs
          \<longrightarrow> stocks_whole_non_negative (run cs s)"
  proof (induction cs arbitrary: s)
    case Nil
    show ?case by simp
  next
    case (Cons c cs)
    show ?case
    proof
      assume a: "stocks_whole_non_negative s \<and> list_all adds_whole_stock (c # cs)"
      then have "stocks_whole_non_negative (snd (call c s))" by (simp add: call_keeps)
      with a Cons.IH [of "snd (call c s)"] show "stocks_whole_non_negative (run (c # cs) s)"
        by simp
    qed
  qed
qed

theorem stocks_stay_whole_non_negative_witness:
  "stocks_whole_non_negative
     (run [CheckAndReserveItem at_first test_order, HandleDelivery at_second test_order,
           AddStock (Str ''MacBook Pro'') 3,
           AddProduct (Str ''Vision Pro'') \<lparr>stock_in = Some 2, price_in = None, category_in = None\<rparr>]
        InventoryService)"
proof -
  have "whole (3::rat)" "whole (2::rat)" by (simp_all add: whole_def)
  with stocks_stay_whole_non_negative [of InventoryService
      "[CheckAndReserveItem at_first test_order, HandleDelivery at_second test_order,
           AddStock (Str ''MacBook Pro'') 3,
           AddProduct (Str ''Vision Pro'') \<lparr>stock_in = Some 2, price_in = None, category_in = None\<rparr>]"]
  show ?thesis by simp
qed

text \<open>
  Where the claim fails as it is written: on a new ledger, \<^verbatim>\<open>addStock("MacBook Pro", -11)\<close>
  takes the stock from 10 to \<open>-1\<close>; and after \<^verbatim>\<open>addProduct("Half", {stock: 0.5})\<close> a
  reservation of that product passes the guard and leaves the stock at \<open>-1/2\<close>.
\<close>

theorem stock_driven_negative:
  "stock_of (run [AddStock (Str ''MacBook Pro'') (- 11)] InventoryService) (Str ''MacBook Pro'')
     = Some (- 1)
   \<and> stock_of (run [AddProduct (Str ''Half'') half_a_unit, CheckAndReserveItem at_first half_order]
         InventoryService) (Str ''Half'')
     = Some (- 1 / 2)"
  by (simp add: stock_of_def addStock_def addProduct_def checkAndReserveItem_def half_a_unit_def
      half_order_fields InventoryService_def Let_def)

section \<open>InventoryService: deliveries\<close>

text \<open>
  C7, as the code has it. The claim reads: handling a delivery for an order id without
  reservation changes nothing, and handling it for a reservation that is already
  fulfilled changes nothing either, its fulfilment time included. The code has no test
  for a reservation that is fulfilled already; it stamps the time again. The theorem:
  without a reservation for the order id the handler publishes nothing and changes
  nothing; on a fulfilled reservation it publishes nothing and changes at most the
  \<open>fulfilledAt\<close> of that one reservation, which becomes the time of this handling; so
  the handling changes nothing when the clock reads the time already stored.
\<close>

theorem handleDelivery_repeated:
  "(reservations s (field_of d ''orderId'') = None \<longrightarrow> handleDelivery now d s = ([], s))
   \<and> (\<forall>r. reservations s (field_of d ''orderId'') = Some r \<and> status r = ''fulfilled''
        \<longrightarrow> handleDelivery now d s =
             ([], s\<lparr>reservations := (reservations s)(field_of d ''orderId'' \<mapsto>
                      r\<lparr>fulfilledAt := Some (toISOString now)\<rparr>)\<rparr>))
   \<and> (\<forall>r. reservations s (field_of d ''orderId'') = Some r \<and> status r = ''fulfilled''
           \<and> fulfilledAt r = Some (toISOString now)
        \<longrightarrow> handleDelivery now d s = ([], s))"
proof (intro conjI allI impI)
  assume "reservations s (field_of d ''orderId'') = None"
  then show "handleDelivery now d s = ([], s)" by (simp add: handleDelivery_def)
next
  fix r
  assume a: "reservations s (field_of d ''orderId'') = Some r \<and> status r = ''fulfilled''"
  then show "handleDelivery now d s =
             ([], s\<lparr>reservations := (reservations s)(field_of d ''orderId'' \<mapsto>
                      r\<lparr>fulfilledAt := Some (toISOString now)\<rparr>)\<rparr>)"
    by (cases r) (simp add: handleDelivery_def)
next
  fix r
  assume a: "reservations s (field_of d ''orderId'') = Some r \<and> status r = ''fulfilled''
           \<and> fulfilledAt r = Some (toISOString now)"
  then have same: "r\<lparr>status := ''fulfilled'', fulfilledAt := Some (toISOString now)\<rparr> = r"
    by (cases r) simp
  from a have "handleDelivery now d s =
      ([], s\<lparr>reservations := (reservations s)(field_of d ''orderId'' \<mapsto>
              r\<lparr>status := ''fulfilled'', fulfilledAt := Some (toISOString now)\<rparr>)\<rparr>)"
    by (simp add: handleDelivery_def)
  also have "\<dots> = ([], s\<lparr>reservations := (reservations s)(field_of d ''orderId'' \<mapsto> r)\<rparr>)"
    by (simp only: same)
  also from a have "\<dots> = ([], s)"
    by (simp only: same_reservation)
  finally show "handleDelivery now d s = ([], s)" .
qed

theorem handleDelivery_repeated_witness:
  "handleDelivery at_first test_order InventoryService = ([], InventoryService)
   \<and> reservations (snd (handleDelivery at_first test_order
        (snd (handleDelivery at_first test_order
           (snd (checkAndReserveItem at_first test_order InventoryService)))))) (Str ''TEST123'')
     = Some \<lparr>item = Str ''MacBook Pro'', quantity = 1, price_r = 239999 / 100,
            reservedAt = ''2024-03-15T10:30:00.000Z'', status = ''fulfilled'',
            fulfilledAt = Some ''2024-03-15T10:30:00.000Z''\<rparr>"
proof -
  let ?s2 = "snd (handleDelivery at_first test_order
       (snd (checkAndReserveItem at_first test_order InventoryService)))"
  have none: "reservations InventoryService (field_of test_order ''orderId'') = None"
    by (simp add: InventoryService_def)
  from handleDelivery_repeated [of InventoryService test_order at_first] none
  have a: "handleDelivery at_first test_order InventoryService = ([], InventoryService)"
    by blast
  let ?r = "\<lparr>item = Str ''MacBook Pro'', quantity = 1, price_r = 239999 / 100,
            reservedAt = ''2024-03-15T10:30:00.000Z'', status = ''fulfilled'',
            fulfilledAt = Some ''2024-03-15T10:30:00.000Z''\<rparr>"
  from reserved_then_delivered
  have r: "reservations ?s2 (field_of test_order ''orderId'') = Some ?r \<and> status ?r = ''fulfilled''
           \<and> fulfilledAt ?r = Some (toISOString at_first)"
    by (simp add: test_order_fields iso_at_first)
  from handleDelivery_repeated [of ?s2 test_order at_first] r
  have "handleDelivery at_first test_order ?s2 = ([], ?s2)"
    by blast
  with a reserved_then_delivered show ?thesis by simp
qed

text \<open>
  Where the claim fails as it is written: the reservation of order \<open>TEST123\<close> is fulfilled
  at 10:30:00; a second delivery event handled at 10:30:05 moves its \<open>fulfilledAt\<close> to
  10:30:05.
\<close>

theorem handleDelivery_restamps:
  "map_option status (reservations (snd (handleDelivery at_first test_order
       (snd (checkAndReserveItem at_first test_order InventoryService)))) (Str ''TEST123''))
     = Some ''fulfilled''
   \<and> map_option fulfilledAt (reservations (snd (handleDelivery at_first test_order
       (snd (checkAndReserveItem at_first test_order InventoryService)))) (Str ''TEST123''))
     = Some (Some ''2024-03-15T10:30:00.000Z'')
   \<and> map_option fulfilledAt (reservations (snd (handleDelivery at_second test_order
       (snd (handleDelivery at_first test_order
          (snd (checkAndReserveItem at_first test_order InventoryService)))))) (Str ''TEST123''))
     = Some (Some ''2024-03-15T10:30:05.000Z'')"
  by (simp add: handleDelivery_def checkAndReserveItem_def test_order_fields inventory_seed
      iso_at_first iso_at_second Let_def)


section \<open>EventBus: publishing\<close>




text \<open>
  C6: on a well-formed bus, a publish on \<open>t\<close> for which the stack has room calls exactly
  the listeners that \<open>t\<close> had when the publish started, each once per subscription, with
  the payload, in the order of the array, whatever the listeners do to the subscriptions
  while they run and whatever they publish themselves (their bodies are arbitrary); when
  the topic has a listener the publish returns normally, with a well-formed bus. The
  array order is the subscription order, since \<^verbatim>\<open>on\<close> appends. The
  result does not depend on how much more room the stack has once no call overflowed,
  and no call overflows when the listeners publish downwards in a ranking of the topics
  and the stack has room for the rank of \<open>t\<close>.
\<close>

theorem emit_delivers_to_snapshot:
  assumes "well_formed s"
  shows "delivered (emit (Suc depth) L t p s) = map (\<lambda>l. (l, p)) (listeners s t)
         \<and> (listeners s t \<noteq> [] \<longrightarrow>
              (\<exists>s'. emit (Suc depth) L t p s = Inr (map (\<lambda>l. (l, p)) (listeners s t), s')
                    \<and> well_formed s'))
         \<and> (within_stack s (emit (Suc depth) L t p s) \<longrightarrow>
              (\<forall>extra. emit (Suc depth + extra) L t p s = emit (Suc depth) L t p s))
         \<and> (layered rk L \<and> bus_layered rk L s \<and> rk t \<le> depth \<longrightarrow>
              within_stack s (emit (Suc depth) L t p s))
         \<and> (\<forall>l s'. on t l s = Inr s' \<longrightarrow> listeners s' t = listeners s t @ [l] \<and> well_formed s')"
proof (intro conjI allI impI)
  from emit_snapshot [OF assms]
  show "delivered (emit (Suc depth) L t p s) = map (\<lambda>l. (l, p)) (listeners s t)" .
next
  assume "listeners s t \<noteq> []"
  with listeners_nonempty_Array [of s t] have "lookup s t \<noteq> Inherited" by auto
  from emit_returns [OF assms this, of depth L p]
  show "\<exists>s'. emit (Suc depth) L t p s = Inr (map (\<lambda>l. (l, p)) (listeners s t), s')
              \<and> well_formed s'"
    by blast
next
  fix extra
  assume "within_stack s (emit (Suc depth) L t p s)"
  from emit_deeper [OF assms this]
  show "emit (Suc depth + extra) L t p s = emit (Suc depth) L t p s" .
next
  assume a: "layered rk L \<and> bus_layered rk L s \<and> rk t \<le> depth"
  then have "rk t < Suc depth" by simp
  with a emit_layered [of rk L s t "Suc depth" p] assms
  show "within_stack s (emit (Suc depth) L t p s)" by blast
next
  fix l s'
  assume o: "on t l s = Inr s'"
  from on_listeners [OF assms on_Inr_not_Inherited [OF o], of l] o
  show "listeners s' t = listeners s t @ [l]" by auto
  from on_Inr [OF assms o] show "well_formed s'" by simp
qed

text \<open>
  The witness. First, listeners 1 and 2 are subscribed; listener 1, when called,
  subscribes listener 3 and unsubscribes listener 2: the publish still calls 1 and 2 and
  not 3, and afterwards the topic has the listeners 1 and 3. Second, the saga: the first
  listener of \<open>order:created\<close> publishes \<open>order:inventory_reserved\<close>, whose listener
  throws; with room for one nested call the publish on \<open>order:created\<close> calls its
  listeners 1 and 3, the nested publish has run (the log has the line of its listener's
  exception, under the nested topic), no call overflowed, and more room changes nothing.
\<close>

theorem emit_delivers_to_snapshot_witness:
  "(\<exists>s'. emit (Suc 0) first_rewires ''t'' (42::nat) two_listeners
            = Inr ([(1, 42), (2, 42)], s')
        \<and> listeners s' ''t'' = [1, 3])
   \<and> emit (Suc (Suc 0)) saga ''order:created'' (42::nat) saga_bus
       = Inr ([(1, 42), (3, 42)], saga_bus\<lparr>errlog := [(''order:inventory_reserved'', Thrown)]\<rparr>)
   \<and> within_stack saga_bus (emit (Suc (Suc 0)) saga ''order:created'' (42::nat) saga_bus)
   \<and> emit (Suc (Suc 0) + 7) saga ''order:created'' (42::nat) saga_bus
       = emit (Suc (Suc 0)) saga ''order:created'' (42::nat) saga_bus
   \<and> (\<exists>s'. on ''t'' 3 two_listeners = Inr s' \<and> listeners s' ''t'' = [1, 2, 3])"
proof -
  let ?s' = "\<lparr>events = [''t'' \<mapsto> 1], heap = (\<lambda>a. [])(0 := [1, 2, 3], 1 := [1, 3]),
              fresh = 2, errlog = []\<rparr>"
  note first = emit_delivers_to_snapshot [OF two_listeners_well_formed,
      of 0 first_rewires "''t''" 42 "\<lambda>t. 0"]
  note second = emit_delivers_to_snapshot [OF saga_bus_well_formed,
      of "Suc 0" saga "''order:created''" 42 saga_rank]
  have ni: "lookup two_listeners ''t'' \<noteq> Inherited"
    by (simp add: lookup_def two_listeners_def)
  have ne: "listeners two_listeners ''t'' \<noteq> []"
    by (simp add: two_listeners_listeners)
  from first ne obtain s1 where
    e1: "emit (Suc 0) first_rewires ''t'' (42::nat) two_listeners
           = Inr (map (\<lambda>l. (l, 42)) (listeners two_listeners ''t''), s1)"
    by blast
  with emit_first_rewires have s1: "s1 = ?s'" by simp
  have "listeners ?s' ''t'' = [1, 3]" by (simp add: listeners_def)
  with e1 s1 have a: "\<exists>s'. emit (Suc 0) first_rewires ''t'' (42::nat) two_listeners
            = Inr ([(1, 42), (2, 42)], s') \<and> listeners s' ''t'' = [1, 3]"
    by (simp add: two_listeners_listeners del: emit.simps)
  have rk: "saga_rank ''order:created'' \<le> Suc 0" by (simp add: saga_rank_def)
  from second saga_layered saga_bus_layered rk
  have ws: "within_stack saga_bus (emit (Suc (Suc 0)) saga ''order:created'' (42::nat) saga_bus)"
    by blast
  with second have st: "emit (Suc (Suc 0) + 7) saga ''order:created'' (42::nat) saga_bus
       = emit (Suc (Suc 0)) saga ''order:created'' (42::nat) saga_bus"
    by blast
  obtain s3 where o: "on ''t'' 3 two_listeners = Inr s3"
    using on_listeners [OF two_listeners_well_formed ni] by blast
  with first have "listeners s3 ''t'' = listeners two_listeners ''t'' @ [3]" by blast
  with o have c: "\<exists>s'. on ''t'' 3 two_listeners = Inr s' \<and> listeners s' ''t'' = [1, 2, 3]"
    by (simp add: two_listeners_listeners)
  from a emit_saga ws st c show ?thesis by blast
qed

section \<open>EventBus: unsubscribing\<close>

text \<open>
  C8, as the code has it. The claim reads: \<^verbatim>\<open>off\<close> removes one subscription of the
  listener (of two subscriptions of the same listener one remains), a topic whose list
  becomes empty leaves the set of active topics, and publishing on a topic without
  subscribers does nothing. The code filters the array by \<^verbatim>\<open>l !== listener\<close>, which
  removes every subscription of the listener. The theorem, for a topic whose name is not
  an inherited property name without an array of its own: \<^verbatim>\<open>off\<close> returns; the topic's
  listeners afterwards are the former ones without any occurrence of the listener, in
  their order; the other topics keep their listeners; the topic is active afterwards
  exactly when a listener is left, and no other topic enters or leaves the active set;
  and a publish on the topic while it has no listeners calls nobody, changes nothing and
  returns normally.
\<close>

theorem off_removes_every_subscription:
  assumes "well_formed s" and "lookup s t \<noteq> Inherited"
  shows "\<exists>s'. off t l s = Inr s' \<and> well_formed s'
           \<and> listeners s' t = filter (\<lambda>x. x \<noteq> l) (listeners s t)
           \<and> (\<forall>u. u \<noteq> t \<longrightarrow> listeners s' u = listeners s u)
           \<and> (filter (\<lambda>x. x \<noteq> l) (listeners s t) = [] \<longrightarrow> t \<notin> getEvents s')
           \<and> (filter (\<lambda>x. x \<noteq> l) (listeners s t) \<noteq> [] \<longrightarrow> t \<in> getEvents s')
           \<and> (\<forall>u. u \<noteq> t \<longrightarrow> (u \<in> getEvents s') = (u \<in> getEvents s))
           \<and> (listeners s t = [] \<longrightarrow> emit (Suc depth) L t p s = Inr ([], s))"
proof -
  from off_listeners [OF assms, of l] obtain s' where
    o: "off t l s = Inr s'" and
    l1: "listeners s' t = filter (\<lambda>x. x \<noteq> l) (listeners s t)" and
    l2: "\<forall>u. u \<noteq> t \<longrightarrow> listeners s' u = listeners s u" and
    l3: "filter (\<lambda>x. x \<noteq> l) (listeners s t) = [] \<longrightarrow> t \<notin> getEvents s'" and
    l4: "\<forall>u. u \<noteq> t \<longrightarrow> (u \<in> getEvents s') = (u \<in> getEvents s)"
    by blast
  from off_Inr [OF assms(1) o] have w: "well_formed s'" by simp
  from off_keeps_topic [OF o]
  have l5: "filter (\<lambda>x. x \<noteq> l) (listeners s t) \<noteq> [] \<longrightarrow> t \<in> getEvents s'" by blast
  have l6: "listeners s t = [] \<longrightarrow> emit (Suc depth) L t p s = Inr ([], s)"
    using emit_no_listeners [OF _ assms(2), of depth L p] by blast
  from o w l1 l2 l3 l4 l5 l6 show ?thesis by blast
qed

theorem off_removes_every_subscription_witness:
  "(\<exists>s'. off ''t'' 1 two_listeners = Inr s' \<and> listeners s' ''t'' = [2] \<and> ''t'' \<in> getEvents s')
   \<and> (\<exists>s'. off ''t'' 7 subscribed_twice = Inr s' \<and> listeners s' ''t'' = [] \<and> ''t'' \<notin> getEvents s')
   \<and> emit 1 first_throws ''order:created'' (42::nat) two_listeners = Inr ([], two_listeners)"
proof -
  have a: "lookup two_listeners ''t'' \<noteq> Inherited" "lookup subscribed_twice ''t'' \<noteq> Inherited"
    "lookup two_listeners ''order:created'' \<noteq> Inherited"
    by (simp_all add: lookup_def two_listeners_def subscribed_twice_def object_prototype_keys_def)
  have n: "listeners two_listeners ''order:created'' = []"
    by (simp add: listeners_def two_listeners_def)
  from off_removes_every_subscription [OF two_listeners_well_formed a(1), of 1]
  have "\<exists>s'. off ''t'' 1 two_listeners = Inr s' \<and> listeners s' ''t'' = [2] \<and> ''t'' \<in> getEvents s'"
    by (auto simp add: two_listeners_listeners)
  moreover from off_removes_every_subscription [OF subscribed_twice_well_formed a(2), of 7]
  have "\<exists>s'. off ''t'' 7 subscribed_twice = Inr s' \<and> listeners s' ''t'' = [] \<and> ''t'' \<notin> getEvents s'"
    by (auto simp add: subscribed_twice_listeners)
  moreover from off_removes_every_subscription [OF two_listeners_well_formed a(3), of 1 0 first_throws 42] n
  have "emit 1 first_throws ''order:created'' (42::nat) two_listeners = Inr ([], two_listeners)"
    by auto
  ultimately show ?thesis by blast
qed

text \<open>
  Where the claim fails as it is written: after \<^verbatim>\<open>on("t", l); on("t", l)\<close> on a new bus
  the topic has the listener twice, and one \<^verbatim>\<open>off("t", l)\<close> leaves none. Besides, on a
  new bus nobody is subscribed to \<^verbatim>\<open>"toString"\<close>, and publishing on it throws a
  TypeError.
\<close>

theorem off_drops_both_subscriptions:
  "map_sum id (on ''t'' 7) (on ''t'' 7 EventBus) = Inr (Inr subscribed_twice)
   \<and> listeners subscribed_twice ''t'' = [7, 7]
   \<and> map_sum id (\<lambda>s. listeners s ''t'') (off ''t'' 7 subscribed_twice) = Inr []
   \<and> emit 1 first_throws ''toString'' (42::nat) EventBus = Inl TypeError"
  by (simp add: subscribed_twice_reached subscribed_twice_listeners)
    (simp add: off_def lookup_def subscribed_twice_def listeners_def Let_def emit_with_def
      EventBus_def object_prototype_keys_def)

end
